theory Spec2Isabelle imports Complex_Main "HOL-Library.Multiset" "HOL-Library.AList" begin

section \<open>Strings\<close>

text \<open>
  JavaScript strings are modelled as \<^typ>\<open>string\<close>, one \<^typ>\<open>char\<close> per code unit
  (code units below 256). The helpers are the \<^verbatim>\<open>String.prototype\<close> methods the
  sources call.
\<close>

definition startsWith :: "string \<Rightarrow> string \<Rightarrow> bool" where
  "startsWith s p = (take (length p) s = p)"

definition endsWith :: "string \<Rightarrow> string \<Rightarrow> bool" where
  "endsWith s p = (drop (length s - length p) s = p)"

text \<open>\<^verbatim>\<open>s.includes(p)\<close>: \<open>p\<close> occurs in \<open>s\<close> as a contiguous substring.\<close>

fun includesStr :: "string \<Rightarrow> string \<Rightarrow> bool" where
  "includesStr [] p = (p = [])"
| "includesStr (c # cs) p = (startsWith (c # cs) p \<or> includesStr cs p)"

text \<open>\<^verbatim>\<open>pattern.slice(1, -1)\<close>: the pattern without its first and last character.\<close>

definition slice_1_m1 :: "string \<Rightarrow> string" where
  "slice_1_m1 p = take (length p - 2) (drop 1 p)"

section \<open>RetryManager\<close>

text \<open>
  A thrown value. \<open>errorName\<close> tells two errors with the same message apart;
  \<open>message\<close> is \<open>None\<close> when the thrown value has no \<^verbatim>\<open>message\<close> property.
\<close>

record JsError =
  errorName :: string
  message :: "string option"

text \<open>
  A JavaScript number, as \<^verbatim>\<open>retryConfig.maxRetries\<close> can be any: the configuration is
  not validated. Every finite double is a real number.
\<close>

datatype number = Finite real | PosInfinity | NegInfinity | NaN

text \<open>
  \<^verbatim>\<open>a >= m\<close> for a counter \<open>a\<close>: a comparison with \<^verbatim>\<open>NaN\<close> is false.
\<close>

definition greaterEq :: "nat \<Rightarrow> number \<Rightarrow> bool" where
  "greaterEq a m =
     (case m of
        Finite x \<Rightarrow> x \<le> real a
      | PosInfinity \<Rightarrow> False
      | NegInfinity \<Rightarrow> True
      | NaN \<Rightarrow> False)"

text \<open>
  \<open>backoffMs\<close> only enters the delay and \<open>nextRetryTime\<close>, which decide nothing in the loop;
  it is kept a natural number.
\<close>

record RetryConfig =
  maxRetries :: number
  backoffMs :: nat
  exponentialBackoff :: bool
  retryableErrors :: "string list"

text \<open>
  \<open>attempt\<close> is a counter: it starts at 0 and \<^verbatim>\<open>context.attempt++\<close> is its only assignment.
  A JavaScript number counts exactly up to \<open>2\<^sup>5\<^sup>3\<close>, so the counter is a natural number
  as long as a run makes no more retries than that.
\<close>

record RetryContext =
  rc_callId :: string
  attempt :: nat
  lastError :: "JsError option"
  nextRetryTime :: "nat option"

text \<open>
  \<^verbatim>\<open>new RegExp(source).test(message)\<close> is JavaScript's regular expression engine; it is
  a parameter \<open>regexTest source message\<close> of the model, \<open>None\<close> when the constructor
  throws on an invalid source.
\<close>

type_synonym regex_engine = "string \<Rightarrow> string \<Rightarrow> bool option"

text \<open>The body of the callback handed to \<^verbatim>\<open>retryableErrors.some\<close>.\<close>

definition matchesPattern :: "regex_engine \<Rightarrow> string \<Rightarrow> string \<Rightarrow> bool" where
  "matchesPattern regexTest msg pattern =
     (if startsWith pattern ''/'' \<and> endsWith pattern ''/''
      then (case regexTest (slice_1_m1 pattern) msg of
              Some b \<Rightarrow> b
            | None \<Rightarrow> includesStr msg pattern)
      else includesStr msg pattern)"

definition isRetryableError :: "regex_engine \<Rightarrow> JsError \<Rightarrow> RetryConfig \<Rightarrow> bool" where
  "isRetryableError regexTest error config =
     (case message error of
        None \<Rightarrow> False
      | Some m \<Rightarrow>
          if m = [] then False
          else list_ex (matchesPattern regexTest m) (retryableErrors config))"

text \<open>
  \<^verbatim>\<open>calculateBackoff\<close> is only called after \<^verbatim>\<open>context.attempt++\<close>, so its argument is
  at least 1 and \<open>attempt - 1\<close> is the exponent the source computes.
\<close>

definition calculateBackoff :: "nat \<Rightarrow> RetryConfig \<Rightarrow> nat" where
  "calculateBackoff att config =
     (if exponentialBackoff config then backoffMs config * 2 ^ (att - 1)
      else backoffMs config)"

text \<open>
  What one call of \<^verbatim>\<open>executeWithRetry\<close> leaves behind: the value returned (\<open>Inr\<close>) or the
  error thrown (\<open>Inl\<close>), how often the operation was invoked, the \<^verbatim>\<open>context\<close> object as
  it was when the call ended, and the \<^verbatim>\<open>retryContexts\<close> map.
\<close>

record 'a RetryRun =
  outcome :: "JsError + 'a"
  invocations :: nat
  finalContext :: RetryContext
  retryContexts :: "string \<rightharpoonup> RetryContext"

text \<open>
  The \<^verbatim>\<open>while (true)\<close> loop. \<open>operation k\<close> is what the \<open>k\<close>-th invocation of the
  operation does: return a value or throw. \<open>now k\<close> is \<^verbatim>\<open>Date.now()\<close> when the
  \<open>k\<close>-th failure is handled. \<open>n\<close> counts the invocations made so far. The \<^verbatim>\<open>context\<close>
  object is the one stored in the map, so every assignment to it is written through to
  the entry of \<open>callId\<close>. The result is \<open>None\<close> when the loop never ends.
\<close>

partial_function (option) retryLoop ::
  "regex_engine \<Rightarrow> (nat \<Rightarrow> nat) \<Rightarrow> RetryConfig \<Rightarrow> string \<Rightarrow> (nat \<Rightarrow> JsError + 'a) \<Rightarrow>
   nat \<Rightarrow> RetryContext \<Rightarrow> (string \<rightharpoonup> RetryContext) \<Rightarrow> 'a RetryRun option" where
  "retryLoop regexTest now retryConfig callId operation n context ctxs =
     (case operation n of
        Inr result \<Rightarrow>
          Some \<lparr>outcome = Inr result, invocations = Suc n, finalContext = context,
                retryContexts = ctxs(callId := None)\<rparr>
      | Inl error \<Rightarrow>
          (let context1 = context\<lparr>lastError := Some error\<rparr> in
           if greaterEq (attempt context1) (maxRetries retryConfig)
              \<or> \<not> isRetryableError regexTest error retryConfig
           then Some \<lparr>outcome = Inl error, invocations = Suc n, finalContext = context1,
                      retryContexts = ctxs(callId := None)\<rparr>
           else
             (let context2 = context1\<lparr>attempt := attempt context1 + 1\<rparr>;
                  backoff = calculateBackoff (attempt context2) retryConfig;
                  context3 = context2\<lparr>nextRetryTime := Some (now n + backoff)\<rparr>
              in retryLoop regexTest now retryConfig callId operation (Suc n) context3
                   (ctxs(callId \<mapsto> context3)))))"

definition executeWithRetry ::
  "regex_engine \<Rightarrow> (nat \<Rightarrow> nat) \<Rightarrow> RetryConfig \<Rightarrow> (string \<rightharpoonup> RetryContext) \<Rightarrow>
   string \<Rightarrow> (nat \<Rightarrow> JsError + 'a) \<Rightarrow> RetryConfig option \<Rightarrow> 'a RetryRun option" where
  "executeWithRetry regexTest now defaultConfig ctxs callId operation config =
     (let retryConfig = (case config of Some c \<Rightarrow> c | None \<Rightarrow> defaultConfig) in
      case ctxs callId of
        Some context \<Rightarrow>
          retryLoop regexTest now retryConfig callId operation 0 context ctxs
      | None \<Rightarrow>
          (let context = \<lparr>rc_callId = callId, attempt = 0, lastError = None,
                           nextRetryTime = None\<rparr>
           in retryLoop regexTest now retryConfig callId operation 0 context
                (ctxs(callId \<mapsto> context))))"

text \<open>
  The \<^verbatim>\<open>context\<close> object after a failed attempt that is retried: the assignments of
  lines 91, 101 and 105 of the loop body.
\<close>

definition retryStep :: "(nat \<Rightarrow> nat) \<Rightarrow> RetryConfig \<Rightarrow> nat \<Rightarrow> JsError \<Rightarrow> RetryContext \<Rightarrow> RetryContext" where
  "retryStep now cfg n e ctx =
     ctx\<lparr>lastError := Some e, attempt := Suc (attempt ctx),
         nextRetryTime := Some (now n + calculateBackoff (Suc (attempt ctx)) cfg)\<rparr>"

text \<open>The attempt count a call starts from: that of a context already stored, else 0.\<close>

definition initialAttempt :: "(string \<rightharpoonup> RetryContext) \<Rightarrow> string \<Rightarrow> nat" where
  "initialAttempt ctxs callId = (case ctxs callId of Some c \<Rightarrow> attempt c | None \<Rightarrow> 0)"

text \<open>
  What the claims say of the invocations of a run: the \<open>k\<close>-th invocation is made, and it is
  followed by another one. In a run that never ends every invocation is made and is
  followed by another.
\<close>

definition invoked :: "'a RetryRun option \<Rightarrow> nat \<Rightarrow> bool" where
  "invoked run k = (case run of Some r \<Rightarrow> k < invocations r | None \<Rightarrow> True)"

definition retried :: "'a RetryRun option \<Rightarrow> nat \<Rightarrow> bool" where
  "retried run k = (case run of Some r \<Rightarrow> Suc k < invocations r | None \<Rightarrow> True)"

subsection \<open>Concrete runs\<close>

text \<open>A regular expression engine that rejects every source, so that patterns are literals.\<close>

definition literalOnly :: regex_engine where
  "literalOnly source msg = None"

definition fixedClock :: "nat \<Rightarrow> nat" where
  "fixedClock k = 1000 * k"

definition econnreset :: JsError where
  "econnreset = \<lparr>errorName = ''Error'', message = Some ''read ECONNRESET''\<rparr>"

definition retryOnReset :: "number \<Rightarrow> RetryConfig" where
  "retryOnReset m = \<lparr>maxRetries = m, backoffMs = 100, exponentialBackoff = True,
                      retryableErrors = [''ECONNRESET'']\<rparr>"

text \<open>An operation that throws \<open>econnreset\<close> on every invocation.\<close>

definition alwaysReset :: "nat \<Rightarrow> JsError + nat" where
  "alwaysReset k = Inl econnreset"

text \<open>An operation that throws \<open>econnreset\<close> once and then returns 42.\<close>

definition resetOnce :: "nat \<Rightarrow> JsError + nat" where
  "resetOnce k = (if k = 0 then Inl econnreset else Inr 42)"

section \<open>FileLockManager\<close>

record FileLock =
  lk_path :: string
  lockId :: string
  acquiredAt :: nat
  lk_callId :: string

record LockRequest =
  rq_path :: string
  rq_callId :: string
  timeout :: nat

text \<open>
  The promise returned by \<^verbatim>\<open>acquireLock\<close>. Resolving or rejecting a promise that is
  settled has no effect.
\<close>

datatype promise = Pending | Resolved FileLock | Rejected string

definition resolve :: "FileLock \<Rightarrow> promise \<Rightarrow> promise" where
  "resolve lock p = (case p of Pending \<Rightarrow> Resolved lock | _ \<Rightarrow> p)"

definition reject :: "string \<Rightarrow> promise \<Rightarrow> promise" where
  "reject msg p = (case p of Pending \<Rightarrow> Rejected msg | _ \<Rightarrow> p)"

text \<open>
  A call of \<^verbatim>\<open>acquireLock\<close> that found the path locked: the request its callbacks
  captured, whether its \<^verbatim>\<open>setTimeout\<close> timer and its \<^verbatim>\<open>setInterval\<close> timer are still
  set, and its promise.
\<close>

record waiter =
  w_request :: LockRequest
  timeoutId :: bool
  checkInterval :: bool
  w_promise :: promise

text \<open>
  The manager: \<^verbatim>\<open>locks\<close> is a \<^verbatim>\<open>Map\<close>, with its entries in insertion order
  (\<^verbatim>\<open>releaseLock\<close> iterates over it); \<^verbatim>\<open>queue\<close> maps a path to its array of requests;
  \<open>lockFiles\<close> are the lock files that exist in the lock directory; \<open>waiters\<close> are the
  calls of \<^verbatim>\<open>acquireLock\<close> that found their path locked, in the order of the calls.
\<close>

record FileLockManager =
  locks :: "(string \<times> FileLock) list"
  queue :: "string \<rightharpoonup> LockRequest list"
  lockFiles :: "string set"
  waiters :: "waiter list"

text \<open>
  What the environment answers while one callback runs: \<^verbatim>\<open>generateLockId()\<close>,
  \<^verbatim>\<open>Date.now()\<close>, and whether \<^verbatim>\<open>unlinkSync\<close> or \<^verbatim>\<open>writeFileSync\<close> fails for a reason of
  the file system's own. \<^verbatim>\<open>getLockFilePath\<close> is built from \<^verbatim>\<open>path.basename\<close> and
  \<^verbatim>\<open>path.dirname\<close> of Node; it is a parameter \<open>getLockFilePath\<close> of the model.
\<close>

record env =
  newLockId :: string
  dateNow :: nat
  unlinkFails :: bool
  writeFails :: bool

text \<open>What a callback does that a caller can see: a lock is handed out, a lock is removed.\<close>

datatype observation = Granted FileLock | Removed FileLock

definition isLocked :: "FileLockManager \<Rightarrow> string \<Rightarrow> bool" where
  "isLocked m filePath = (map_of (locks m) filePath \<noteq> None)"

definition getLockInfo :: "FileLockManager \<Rightarrow> string \<Rightarrow> FileLock option" where
  "getLockInfo m filePath = map_of (locks m) filePath"

text \<open>
  \<^verbatim>\<open>writeFileSync(lockFilePath, callId, { flag: 'wx' })\<close> throws when the file exists.
  \<open>Inl\<close> is the error thrown.
\<close>

definition tryAcquireLock ::
  "(string \<Rightarrow> string) \<Rightarrow> env \<Rightarrow> FileLockManager \<Rightarrow> string \<Rightarrow> string \<Rightarrow>
   (string + FileLock) \<times> FileLockManager" where
  "tryAcquireLock getLockFilePath e m filePath callId =
     (let lockFilePath = getLockFilePath filePath in
      if lockFilePath \<in> lockFiles m \<or> writeFails e
      then (Inl (''Failed to acquire lock on '' @ filePath), m)
      else
        (let lock = \<lparr>lk_path = filePath, lockId = newLockId e, acquiredAt = dateNow e,
                      lk_callId = callId\<rparr>
         in (Inr lock,
             m\<lparr>lockFiles := insert lockFilePath (lockFiles m),
               locks := AList.update filePath lock (locks m)\<rparr>)))"

definition granted :: "(string + FileLock) \<Rightarrow> observation list" where
  "granted r = (case r of Inr lock \<Rightarrow> [Granted lock] | Inl err \<Rightarrow> [])"

text \<open>The lock that \<^verbatim>\<open>processQueue\<close> acquires is not passed on to anyone.\<close>

definition processQueue ::
  "(string \<Rightarrow> string) \<Rightarrow> env \<Rightarrow> FileLockManager \<Rightarrow> string \<Rightarrow>
   observation list \<times> FileLockManager" where
  "processQueue getLockFilePath e m filePath =
     (case queue m filePath of
        None \<Rightarrow> ([], m)
      | Some [] \<Rightarrow> ([], m)
      | Some (nextRequest # rest) \<Rightarrow>
          (let m1 = m\<lparr>queue := (queue m)(filePath \<mapsto> rest)\<rparr>;
               (r, m2) = tryAcquireLock getLockFilePath e m1 (rq_path nextRequest)
                           (rq_callId nextRequest)
           in (granted r, m2)))"

definition releaseLock ::
  "(string \<Rightarrow> string) \<Rightarrow> env \<Rightarrow> FileLockManager \<Rightarrow> string \<Rightarrow>
   observation list \<times> FileLockManager" where
  "releaseLock getLockFilePath e m lid =
     (case find (\<lambda>(filePath, lock). lockId lock = lid) (locks m) of
        None \<Rightarrow> ([], m)
      | Some (filePath, lock) \<Rightarrow>
          (let lockFilePath = getLockFilePath filePath;
               m1 = (if unlinkFails e then m
                     else m\<lparr>lockFiles := lockFiles m - {lockFilePath}\<rparr>);
               m2 = m1\<lparr>locks := AList.delete filePath (locks m1)\<rparr>;
               (obs, m3) = processQueue getLockFilePath e m2 filePath
           in (Removed lock # obs, m3)))"

text \<open>
  The synchronous part of \<^verbatim>\<open>acquireLock\<close>. On a locked path the request is pushed to the
  queue and a waiter with both timers set is added; its promise is pending.
\<close>

definition settle :: "(string + FileLock) \<Rightarrow> promise \<Rightarrow> promise" where
  "settle r p = (case r of Inr lock \<Rightarrow> resolve lock p | Inl err \<Rightarrow> reject err p)"

definition acquireLock ::
  "(string \<Rightarrow> string) \<Rightarrow> env \<Rightarrow> FileLockManager \<Rightarrow> LockRequest \<Rightarrow>
   promise \<times> observation list \<times> FileLockManager" where
  "acquireLock getLockFilePath e m request =
     (let filePath = rq_path request; callId = rq_callId request in
      if isLocked m filePath
      then
        (let q = (case queue m filePath of None \<Rightarrow> [] | Some reqs \<Rightarrow> reqs) in
         (Pending, [],
          m\<lparr>queue := (queue m)(filePath \<mapsto> q @ [request]),
            waiters := waiters m @
              [\<lparr>w_request = request, timeoutId = True, checkInterval = True,
                w_promise = Pending\<rparr>]\<rparr>))
      else
        (let (r, m1) = tryAcquireLock getLockFilePath e m filePath callId
         in (settle r Pending, granted r, m1)))"

text \<open>
  \<^verbatim>\<open>queue.findIndex(req => req.callId === callId)\<close> and \<^verbatim>\<open>queue.splice(index, 1)\<close>: the
  first request of that call id is removed.
\<close>

fun removeFirst :: "string \<Rightarrow> LockRequest list \<Rightarrow> LockRequest list" where
  "removeFirst callId [] = []"
| "removeFirst callId (req # reqs) =
     (if rq_callId req = callId then reqs else req # removeFirst callId reqs)"

text \<open>The \<^verbatim>\<open>setTimeout\<close> callback of waiter \<open>i\<close>; it does not clear the interval timer.\<close>

definition onTimeout :: "FileLockManager \<Rightarrow> nat \<Rightarrow> FileLockManager" where
  "onTimeout m i =
     (if i < length (waiters m) \<and> timeoutId (waiters m ! i)
      then
        (let w = waiters m ! i;
             filePath = rq_path (w_request w);
             callId = rq_callId (w_request w);
             q = (case queue m filePath of
                    None \<Rightarrow> queue m
                  | Some reqs \<Rightarrow> (queue m)(filePath \<mapsto> removeFirst callId reqs));
             w' = w\<lparr>timeoutId := False,
                    w_promise := reject (''Timeout waiting for lock on '' @ filePath)
                                   (w_promise w)\<rparr>
         in m\<lparr>queue := q, waiters := (waiters m)[i := w']\<rparr>)
      else m)"

text \<open>The \<^verbatim>\<open>setInterval\<close> callback of waiter \<open>i\<close>.\<close>

definition onInterval ::
  "(string \<Rightarrow> string) \<Rightarrow> env \<Rightarrow> FileLockManager \<Rightarrow> nat \<Rightarrow>
   observation list \<times> FileLockManager" where
  "onInterval getLockFilePath e m i =
     (if i < length (waiters m) \<and> checkInterval (waiters m ! i)
      then
        (let w = waiters m ! i;
             filePath = rq_path (w_request w);
             callId = rq_callId (w_request w)
         in if \<not> isLocked m filePath
            then
              (let (r, m1) = tryAcquireLock getLockFilePath e m filePath callId;
                   w' = w\<lparr>checkInterval := False, timeoutId := False,
                          w_promise := settle r (w_promise w)\<rparr>
               in (granted r, m1\<lparr>waiters := (waiters m1)[i := w']\<rparr>))
            else ([], m))
      else ([], m))"

subsection \<open>Interleavings\<close>

text \<open>
  JavaScript runs one callback at a time, so an interleaving of concurrent callers is a
  sequence of callbacks: calls of \<^verbatim>\<open>acquireLock\<close> and \<^verbatim>\<open>releaseLock\<close>, and timers of
  waiters firing.
\<close>

datatype callback =
    Acquire LockRequest env
  | Release string env
  | TimeoutFires nat
  | IntervalFires nat env

definition step ::
  "(string \<Rightarrow> string) \<Rightarrow> FileLockManager \<Rightarrow> callback \<Rightarrow> observation list \<times> FileLockManager" where
  "step getLockFilePath m cb =
     (case cb of
        Acquire request e \<Rightarrow> snd (acquireLock getLockFilePath e m request)
      | Release lid e \<Rightarrow> releaseLock getLockFilePath e m lid
      | TimeoutFires i \<Rightarrow> ([], onTimeout m i)
      | IntervalFires i e \<Rightarrow> onInterval getLockFilePath e m i)"

text \<open>Running callbacks one after the other, collecting what is observed.\<close>

fun runCallbacks ::
  "(string \<Rightarrow> string) \<Rightarrow> FileLockManager \<Rightarrow> callback list \<Rightarrow>
   observation list \<times> FileLockManager" where
  "runCallbacks getLockFilePath m [] = ([], m)"
| "runCallbacks getLockFilePath m (cb # cbs) =
     (let (obs, m1) = step getLockFilePath m cb;
          (obs', m2) = runCallbacks getLockFilePath m1 cbs
      in (obs @ obs', m2))"

text \<open>
  The manager after its constructor: no lock, no queue, no waiter; the lock directory may
  hold lock files left behind earlier.
\<close>

definition newManager :: "string set \<Rightarrow> FileLockManager" where
  "newManager files = \<lparr>locks = [], queue = Map.empty, lockFiles = files, waiters = []\<rparr>"

text \<open>The locks that are live after a sequence of observations: handed out and not removed.\<close>

fun live :: "observation list \<Rightarrow> FileLock multiset" where
  "live [] = {#}"
| "live (Granted lock # obs) = add_mset lock (live obs)"
| "live (Removed lock # obs) = live obs - {#lock#}"

definition liveLocks :: "observation list \<Rightarrow> FileLock multiset" where
  "liveLocks obs = live (rev obs)"

text \<open>
  What holds between the observations made so far and the manager: the live locks are
  the locks of the map, no two locked paths share a lock file, every lock sits under its
  own path, and the lock file of every locked path exists.
\<close>

definition lockInvariant ::
  "(string \<Rightarrow> string) \<Rightarrow> observation list \<Rightarrow> FileLockManager \<Rightarrow> bool" where
  "lockInvariant lf obs m =
     (liveLocks obs = mset (map snd (locks m)) \<and>
      distinct (map (\<lambda>x. lf (fst x)) (locks m)) \<and>
      (\<forall>x \<in> set (locks m). lk_path (snd x) = fst x \<and> lf (fst x) \<in> lockFiles m))"

subsection \<open>A concrete interleaving\<close>

definition lockFileOf :: "string \<Rightarrow> string" where
  "lockFileOf filePath = ''/locks/'' @ filePath @ ''.lock''"

definition envAt :: "string \<Rightarrow> nat \<Rightarrow> env" where
  "envAt lid t = \<lparr>newLockId = lid, dateNow = t, unlinkFails = False, writeFails = False\<rparr>"

definition requestA :: LockRequest where
  "requestA = \<lparr>rq_path = ''a.txt'', rq_callId = ''callA'', timeout = 5000\<rparr>"

definition requestB :: LockRequest where
  "requestB = \<lparr>rq_path = ''a.txt'', rq_callId = ''callB'', timeout = 5000\<rparr>"

text \<open>
  Call A takes the lock, call B asks for it and waits, A releases, the interval timer of
  B fires, and, 5000 ms after it asked, the timeout of B fires.
\<close>

definition releaseWhileWaiting :: "callback list" where
  "releaseWhileWaiting =
     [Acquire requestA (envAt ''lock-1'' 0),
      Acquire requestB (envAt ''lock-2'' 10),
      Release ''lock-1'' (envAt ''lock-3'' 20),
      IntervalFires 0 (envAt ''lock-4'' 110),
      TimeoutFires 0]"

section \<open>StreamAggregator\<close>

record ConcurrentCall =
  call_id :: string
  prompt :: string

text \<open>
  Modelled from the spec: \<^verbatim>\<open>ServerGeminiStreamEvent\<close> is declared in \<^verbatim>\<open>turn.ts\<close>, which is
  not among the sources. The spec gives it as the tagged union \<^verbatim>\<open>Content{text}\<close>,
  \<^verbatim>\<open>ToolCallRequest{name,args}\<close>, \<^verbatim>\<open>ToolCallResult{...}\<close>, \<^verbatim>\<open>Error{message,status}\<close>,
  \<^verbatim>\<open>Finished{reason}\<close>. A status of \<open>None\<close> is \<^verbatim>\<open>undefined\<close>.
\<close>

datatype ServerGeminiStreamEvent =
    Content string
  | ToolCallRequest string string
  | ToolCallResult string
  | Error string "string option"
  | Finished string

text \<open>
  The event with its attribution. \<open>None\<close> is \<^verbatim>\<open>undefined\<close>: \<^verbatim>\<open>callIds[index]\<close> beyond the
  end of the array.
\<close>

record EnrichedServerGeminiStreamEvent =
  event :: ServerGeminiStreamEvent
  callId :: "string option"
  callTitle :: "string option"

text \<open>
  An \<^verbatim>\<open>AsyncGenerator<ServerGeminiStreamEvent>\<close> that yields finitely many events and
  then returns or throws. \<open>Throws m\<close> carries what the \<^verbatim>\<open>catch\<close> block reads off the thrown
  value: \<^verbatim>\<open>error instanceof Error ? error.message : String(error)\<close>.
\<close>

datatype ending = Returns | Throws string

record generator =
  events :: "ServerGeminiStreamEvent list"
  ending :: ending

datatype next_result = Value ServerGeminiStreamEvent | Done | Thrown string

text \<open>\<^verbatim>\<open>generator.next()\<close>; a generator that has thrown is finished.\<close>

definition gen_next :: "generator \<Rightarrow> next_result \<times> generator" where
  "gen_next g =
     (case events g of
        e # es \<Rightarrow> (Value e, g\<lparr>events := es\<rparr>)
      | [] \<Rightarrow>
          (case ending g of
             Returns \<Rightarrow> (Done, g)
           | Throws m \<Rightarrow> (Thrown m, g\<lparr>ending := Returns\<rparr>)))"

text \<open>
  \<^verbatim>\<open>new Map(calls.map(call => [call.id, call]))\<close>: the entries in insertion order. Setting
  a key that is present replaces its value and keeps its place.
\<close>

definition callMetadata :: "ConcurrentCall list \<Rightarrow> (string \<times> ConcurrentCall) list" where
  "callMetadata calls = foldl (\<lambda>m call. AList.update (call_id call) call m) [] calls"

text \<open>The elements of \<^verbatim>\<open>activeGenerators\<close>; the \<^verbatim>\<open>buffer\<close> field is never read.\<close>

record genInfo =
  gi_generator :: generator
  gi_callId :: "string option"
  gi_done :: bool

text \<open>\<^verbatim>\<open>callIds[index]\<close>, which is \<^verbatim>\<open>undefined\<close> beyond the end of the array.\<close>

definition callIdAt :: "string list \<Rightarrow> nat \<Rightarrow> string option" where
  "callIdAt callIds index = (if index < length callIds then Some (callIds ! index) else None)"

definition activeGenerators :: "ConcurrentCall list \<Rightarrow> generator list \<Rightarrow> genInfo list" where
  "activeGenerators calls streams =
     (let callIds = map fst (callMetadata calls) in
      map (\<lambda>(gen, index).
             \<lparr>gi_generator = gen, gi_callId = callIdAt callIds index, gi_done = False\<rparr>)
          (zip streams [0 ..< length streams]))"

text \<open>\<^verbatim>\<open>this.callMetadata.get(genInfo.callId)?.prompt || genInfo.callId\<close>\<close>

definition titleOf :: "(string \<times> ConcurrentCall) list \<Rightarrow> string option \<Rightarrow> string option" where
  "titleOf md cid =
     (case cid of
        None \<Rightarrow> None
      | Some i \<Rightarrow>
          (case map_of md i of
             Some originalCall \<Rightarrow>
               if prompt originalCall \<noteq> [] then Some (prompt originalCall) else Some i
           | None \<Rightarrow> Some i))"

definition enrich ::
  "(string \<times> ConcurrentCall) list \<Rightarrow> string option \<Rightarrow> ServerGeminiStreamEvent \<Rightarrow>
   EnrichedServerGeminiStreamEvent" where
  "enrich md cid v = \<lparr>event = v, callId = cid, callTitle = titleOf md cid\<rparr>"

text \<open>A call id inside a template literal.\<close>

definition showCallId :: "string option \<Rightarrow> string" where
  "showCallId cid = (case cid of Some i \<Rightarrow> i | None \<Rightarrow> ''undefined'')"

definition errorEvent ::
  "(string \<times> ConcurrentCall) list \<Rightarrow> string option \<Rightarrow> string \<Rightarrow>
   EnrichedServerGeminiStreamEvent" where
  "errorEvent md cid errorMessage =
     \<lparr>event = Error (''Error in call '' @ showCallId cid @ '': '' @ errorMessage) None,
      callId = cid, callTitle = titleOf md cid\<rparr>"

text \<open>
  The body of the \<^verbatim>\<open>for\<close> loop for one \<^verbatim>\<open>genInfo\<close>: what it yields and the \<^verbatim>\<open>genInfo\<close>
  afterwards.
\<close>

definition advance ::
  "(string \<times> ConcurrentCall) list \<Rightarrow> genInfo \<Rightarrow>
   EnrichedServerGeminiStreamEvent list \<times> genInfo" where
  "advance md genInfo =
     (if gi_done genInfo then ([], genInfo)
      else
        (case gen_next (gi_generator genInfo) of
           (Value v, gen') \<Rightarrow>
             ([enrich md (gi_callId genInfo) v], genInfo\<lparr>gi_generator := gen'\<rparr>)
         | (Done, gen') \<Rightarrow>
             ([], genInfo\<lparr>gi_generator := gen', gi_done := True\<rparr>)
         | (Thrown errorMessage, gen') \<Rightarrow>
             ([errorEvent md (gi_callId genInfo) errorMessage],
              genInfo\<lparr>gi_generator := gen', gi_done := True\<rparr>)))"

text \<open>One run of the \<^verbatim>\<open>for (const genInfo of activeGenerators)\<close> loop.\<close>

fun pass ::
  "(string \<times> ConcurrentCall) list \<Rightarrow> genInfo list \<Rightarrow>
   EnrichedServerGeminiStreamEvent list \<times> genInfo list" where
  "pass md [] = ([], [])"
| "pass md (genInfo # rest) =
     (let (out, genInfo') = advance md genInfo;
          (outs, rest') = pass md rest
      in (out @ outs, genInfo' # rest'))"

text \<open>
  The number of \<^verbatim>\<open>next()\<close> calls a \<^verbatim>\<open>genInfo\<close> still takes before it is done; the
  \<^verbatim>\<open>while\<close> loop ends because every run of the \<^verbatim>\<open>for\<close> loop lowers the sum.
\<close>

definition pendingCalls :: "genInfo \<Rightarrow> nat" where
  "pendingCalls genInfo =
     (if gi_done genInfo then 0 else Suc (length (events (gi_generator genInfo))))"

lemma pendingCalls_advance:
  "pendingCalls (snd (advance md g)) \<le> pendingCalls g"
  "\<not> gi_done g \<Longrightarrow> pendingCalls (snd (advance md g)) < pendingCalls g"
  by (auto simp: pendingCalls_def advance_def gen_next_def
      split: list.splits ending.splits prod.splits next_result.splits)

lemma snd_pass_Cons: "snd (pass md (g # gs)) = snd (advance md g) # snd (pass md gs)"
  by (simp split: prod.splits)

lemma pendingCalls_pass_le:
  "sum_list (map pendingCalls (snd (pass md gs))) \<le> sum_list (map pendingCalls gs)"
proof (induction gs)
  case Nil
  show ?case by simp
next
  case (Cons g gs)
  from pendingCalls_advance(1) [of md g] Cons.IH show ?case
    unfolding snd_pass_Cons by simp
qed

lemma pendingCalls_pass_less:
  "list_ex (\<lambda>g. \<not> gi_done g) gs \<Longrightarrow>
     sum_list (map pendingCalls (snd (pass md gs))) < sum_list (map pendingCalls gs)"
proof (induction gs)
  case Nil
  then show ?case by simp
next
  case (Cons g gs)
  show ?case
  proof (cases "gi_done g")
    case True
    with Cons.prems have "list_ex (\<lambda>g. \<not> gi_done g) gs" by simp
    from Cons.IH [OF this] pendingCalls_advance(1) [of md g] show ?thesis
      unfolding snd_pass_Cons by simp
  next
    case False
    from pendingCalls_advance(2) [OF False, of md] pendingCalls_pass_le [of md gs] show ?thesis
      unfolding snd_pass_Cons by simp
  qed
qed

text \<open>
  The \<^verbatim>\<open>while (activeGenerators.some(g => !g.done))\<close> loop: everything it yields, and
  \<^verbatim>\<open>activeGenerators\<close> when it ends.
\<close>

function mergeLoop ::
  "(string \<times> ConcurrentCall) list \<Rightarrow> genInfo list \<Rightarrow>
   EnrichedServerGeminiStreamEvent list \<times> genInfo list" where
  "mergeLoop md gens =
     (if list_ex (\<lambda>g. \<not> gi_done g) gens
      then (let thisRound = pass md gens;
                later = mergeLoop md (snd thisRound)
            in (fst thisRound @ fst later, snd later))
      else ([], gens))"
  by pat_completeness auto
termination mergeLoop
  by (relation "measure (\<lambda>(md, gens). sum_list (map pendingCalls gens))")
     (auto simp: pendingCalls_pass_less)

declare mergeLoop.simps [simp del]

definition mergeStreams ::
  "ConcurrentCall list \<Rightarrow> generator list \<Rightarrow>
   EnrichedServerGeminiStreamEvent list \<times> genInfo list" where
  "mergeStreams calls streams =
     mergeLoop (callMetadata calls) (activeGenerators calls streams)"

text \<open>
  What the claims say a unit contributes to the merged stream: its own events in order,
  each with the unit's attribution, then one synthesized \<open>Error\<close> event if it throws.
\<close>

definition unitOutput ::
  "(string \<times> ConcurrentCall) list \<Rightarrow> string option \<Rightarrow> generator \<Rightarrow>
   EnrichedServerGeminiStreamEvent list" where
  "unitOutput md cid gen =
     map (enrich md cid) (events gen) @
     (case ending gen of Returns \<Rightarrow> [] | Throws m \<Rightarrow> [errorEvent md cid m])"

definition throws :: "generator \<Rightarrow> bool" where
  "throws gen = (case ending gen of Returns \<Rightarrow> False | Throws m \<Rightarrow> True)"

text \<open>The contributions of all units, unit by unit in the order of \<open>streams\<close>.\<close>

definition expectedUnits ::
  "ConcurrentCall list \<Rightarrow> generator list \<Rightarrow> EnrichedServerGeminiStreamEvent list list" where
  "expectedUnits calls streams =
     map (\<lambda>(gen, index).
            unitOutput (callMetadata calls) (callIdAt (map fst (callMetadata calls)) index) gen)
         (zip streams [0 ..< length streams])"

text \<open>What is left of a unit's contribution while the loop runs.\<close>

definition remaining ::
  "(string \<times> ConcurrentCall) list \<Rightarrow> genInfo \<Rightarrow> EnrichedServerGeminiStreamEvent list" where
  "remaining md g = (if gi_done g then [] else unitOutput md (gi_callId g) (gi_generator g))"

subsection \<open>Concrete streams\<close>

definition pingPong :: "ConcurrentCall list" where
  "pingPong = [\<lparr>call_id = ''call1'', prompt = ''ping''\<rparr>, \<lparr>call_id = ''call2'', prompt = ''pong''\<rparr>]"

text \<open>A unit that yields one \<open>Content\<close> event and then throws.\<close>

definition failsAfterOne :: generator where
  "failsAfterOne = \<lparr>events = [Content ''partial''], ending = Throws ''boom''\<rparr>"

text \<open>A unit that yields \<open>Content\<close>, then \<open>Finished\<close>, and returns.\<close>

definition completes :: generator where
  "completes = \<lparr>events = [Content ''pong!'', Finished ''STOP''], ending = Returns\<rparr>"

section \<open>StreamMultiplexer\<close>

text \<open>The event with its \<^verbatim>\<open>_metadata\<close>.\<close>

record EnrichedStreamEvent =
  es_event :: ServerGeminiStreamEvent
  md_callId :: string
  md_originalPrompt :: string
  md_executionId :: string
  md_timestamp :: nat

text \<open>An element of the \<^verbatim>\<open>generators\<close> array.\<close>

record generatorWithMetadata =
  gm_generator :: generator
  gm_callId :: string
  gm_originalPrompt :: string
  gm_executionId :: string

text \<open>
  A promise \<^verbatim>\<open>generator.next().then((result) => ({ result, index }))\<close>: the identity of
  the promise object, the index it carries, and how it settles: fulfilled with a value,
  fulfilled with \<^verbatim>\<open>done\<close>, or rejected.
\<close>

record nextPromise =
  np_identity :: nat
  np_index :: nat
  np_settles :: next_result

text \<open>
  The state of the loop: the generators as far as they have run, the \<^verbatim>\<open>promises\<close> array,
  and the number of identities given to promise objects so far, which is the identity
  of the next object that is stored in the array or compared with its elements.
\<close>

record multiplexer =
  mx_generators :: "generatorWithMetadata list"
  promises :: "nextPromise list"
  created :: nat

text \<open>
  \<^verbatim>\<open>promises.findIndex((p) => p === Promise.race(promises))\<close>. The callback runs on the
  elements in turn; each run calls \<^verbatim>\<open>Promise.race\<close>, which creates a promise object,
  and compares the element with that object. The result is the index found, if any, and
  the number of promises created afterwards.
\<close>

fun findRaced :: "nat \<Rightarrow> nat \<Rightarrow> nextPromise list \<Rightarrow> nat option \<times> nat" where
  "findRaced fresh k [] = (None, fresh)"
| "findRaced fresh k (p # ps) =
     (if np_identity p = fresh then (Some k, Suc fresh)
      else findRaced (Suc fresh) (Suc k) ps)"

text \<open>\<^verbatim>\<open>promises.splice(promiseIndex, 1)\<close>\<close>

definition splice1 :: "nat \<Rightarrow> 'a list \<Rightarrow> 'a list" where
  "splice1 i xs = take i xs @ drop (Suc i) xs"

definition removeRaced :: "multiplexer \<Rightarrow> multiplexer" where
  "removeRaced st =
     (case findRaced (created st) 0 (promises st) of
        (None, fresh) \<Rightarrow> st\<lparr>created := fresh\<rparr>
      | (Some promiseIndex, fresh) \<Rightarrow>
          st\<lparr>promises := splice1 promiseIndex (promises st), created := fresh\<rparr>)"

text \<open>
  One run of the body of the \<^verbatim>\<open>while\<close> loop. \<open>w\<close> is the position in the array of the
  promise that decides \<^verbatim>\<open>await Promise.race(promises)\<close>, which the event loop chooses;
  \<open>t\<close> is \<^verbatim>\<open>Date.now()\<close>. A rejected promise takes the run to the \<^verbatim>\<open>catch\<close> block, whose
  \<^verbatim>\<open>find\<close> and \<^verbatim>\<open>indexOf\<close> remove what \<^verbatim>\<open>findIndex\<close> would.
\<close>

definition raceIteration ::
  "nat \<Rightarrow> nat \<Rightarrow> multiplexer \<Rightarrow> EnrichedStreamEvent list \<times> multiplexer" where
  "raceIteration w t st =
     (let winner = promises st ! w;
          st1 = removeRaced (st\<lparr>created := Suc (created st)\<rparr>)
      in case np_settles winner of
           Thrown err \<Rightarrow> ([], st1)
         | Done \<Rightarrow> ([], st1)
         | Value v \<Rightarrow>
             (let index = np_index winner;
                  g = mx_generators st1 ! index;
                  enrichedEvent =
                    \<lparr>es_event = v, md_callId = gm_callId g,
                     md_originalPrompt = gm_originalPrompt g,
                     md_executionId = gm_executionId g, md_timestamp = t\<rparr>;
                  (r, gen') = gen_next (gm_generator g)
              in ([enrichedEvent],
                  st1\<lparr>mx_generators := (mx_generators st1)[index := g\<lparr>gm_generator := gen'\<rparr>],
                      promises := promises st1 @
                        [\<lparr>np_identity = created st1, np_index = index, np_settles = r\<rparr>],
                      created := Suc (created st1)\<rparr>)))"

text \<open>The state before the loop: one promise per generator, from its first \<^verbatim>\<open>next()\<close>.\<close>

definition startRace :: "generatorWithMetadata list \<Rightarrow> multiplexer" where
  "startRace generators =
     \<lparr>mx_generators =
        map (\<lambda>g. g\<lparr>gm_generator := snd (gen_next (gm_generator g))\<rparr>) generators,
      promises =
        map (\<lambda>(g, index).
               \<lparr>np_identity = index, np_index = index,
                np_settles = fst (gen_next (gm_generator g))\<rparr>)
            (zip generators [0 ..< length generators]),
      created = length generators\<rparr>"

text \<open>
  How far the generator function has come: it is still in its loop, it has returned, or
  it has thrown \<^verbatim>\<open>'Stream merging aborted'\<close>.
\<close>

datatype progress = StillRunning | Completed | MergingAborted

text \<open>
  The \<^verbatim>\<open>while (promises.length > 0 && !signal.aborted)\<close> loop, run for at most \<open>n\<close>
  iterations: what it has yielded and how far it has come. \<open>scheduler\<close> chooses the
  promise that decides each race, \<open>clock\<close> gives \<^verbatim>\<open>Date.now()\<close>.
\<close>

fun raceLoop ::
  "nat \<Rightarrow> (nextPromise list \<Rightarrow> nat) \<Rightarrow> (nat \<Rightarrow> nat) \<Rightarrow> bool \<Rightarrow> multiplexer \<Rightarrow>
   EnrichedStreamEvent list \<times> progress" where
  "raceLoop 0 scheduler clock signalAborted st =
     (if promises st \<noteq> [] \<and> \<not> signalAborted then ([], StillRunning)
      else ([], if signalAborted then MergingAborted else Completed))"
| "raceLoop (Suc n) scheduler clock signalAborted st =
     (if promises st \<noteq> [] \<and> \<not> signalAborted
      then (let (out, st') = raceIteration (scheduler (promises st)) (clock n) st;
                (outs, p) = raceLoop n scheduler clock signalAborted st'
            in (out @ outs, p))
      else ([], if signalAborted then MergingAborted else Completed))"

definition mergeStreamsWithMetadata ::
  "nat \<Rightarrow> (nextPromise list \<Rightarrow> nat) \<Rightarrow> (nat \<Rightarrow> nat) \<Rightarrow> generatorWithMetadata list \<Rightarrow> bool \<Rightarrow>
   EnrichedStreamEvent list \<times> progress" where
  "mergeStreamsWithMetadata n scheduler clock generators signalAborted =
     raceLoop n scheduler clock signalAborted (startRace generators)"

text \<open>Every promise in the array was created before the state was reached.\<close>

definition allCreated :: "multiplexer \<Rightarrow> bool" where
  "allCreated st = list_all (\<lambda>p. np_identity p < created st) (promises st)"

subsection \<open>A concrete unit\<close>

text \<open>The race is decided by the earliest promise in the array.\<close>

definition earliest :: "nextPromise list \<Rightarrow> nat" where
  "earliest ps = 0"

text \<open>A unit that throws at its first \<^verbatim>\<open>next()\<close>.\<close>

definition raisesAtOnce :: generatorWithMetadata where
  "raisesAtOnce =
     \<lparr>gm_generator = \<lparr>events = [], ending = Throws ''boom''\<rparr>, gm_callId = ''call1'',
      gm_originalPrompt = ''ping'', gm_executionId = ''exec-1''\<rparr>"

section \<open>GeminiClient: executeConcurrentStreams\<close>

text \<open>
  \<^verbatim>\<open>Turn\<close> is declared in \<^verbatim>\<open>turn.ts\<close>, which is not among the sources: a turn is
  represented by the prompt id it is constructed with, and \<^verbatim>\<open>turn.run(request, signal)\<close>
  is a parameter \<open>run\<close> of the model.
\<close>

record Turn =
  turn_prompt_id :: string

record AbortSignal =
  aborted :: bool

text \<open>\<^verbatim>\<open>buildRequestFromCall\<close> returns \<^verbatim>\<open>[{ text: call.prompt }]\<close>; the model keeps the text.\<close>

definition buildRequestFromCall :: "ConcurrentCall \<Rightarrow> string" where
  "buildRequestFromCall call = (let fullPrompt = prompt call in fullPrompt)"

text \<open>
  The \<^verbatim>\<open>for (const call of calls)\<close> loop pushes one turn and one stream per call. The
  result is the \<^verbatim>\<open>turns\<close> array and everything the generator yields.
\<close>

definition executeConcurrentStreams ::
  "(Turn \<Rightarrow> string \<Rightarrow> AbortSignal \<Rightarrow> generator) \<Rightarrow> ConcurrentCall list \<Rightarrow> AbortSignal \<Rightarrow>
   string \<Rightarrow> Turn list \<times> EnrichedServerGeminiStreamEvent list" where
  "executeConcurrentStreams run calls signal prompt_id =
     (let turns = map (\<lambda>call. \<lparr>turn_prompt_id = prompt_id @ ''-'' @ call_id call\<rparr>) calls;
          streams = map (\<lambda>call.
                      run \<lparr>turn_prompt_id = prompt_id @ ''-'' @ call_id call\<rparr>
                        (buildRequestFromCall call) signal) calls
      in (turns, fst (mergeStreams calls streams)))"

section \<open>GeminiClient: parseConcurrentSyntax\<close>

text \<open>
  The regular expression is
  \<^verbatim>\<open>/(call\d+):\s*((?:[^,]|,(?!\s*call\d+:))*)(?=,\s*call\d+:|$)/g\<close>.
  \<^verbatim>\<open>\d\<close> is an ASCII digit; \<^verbatim>\<open>\s\<close>, and what \<^verbatim>\<open>trim\<close> strips, is white space or a line
  terminator: among the code units below 256 these are tab, line feed, vertical tab,
  form feed, carriage return, space and no-break space.
\<close>

definition isDigit :: "char \<Rightarrow> bool" where
  "isDigit c = (c \<in> set ''0123456789'')"

definition isSpace :: "char \<Rightarrow> bool" where
  "isSpace c =
     (c \<in> {CHR 0x09, CHR 0x0A, CHR 0x0B, CHR 0x0C, CHR 0x0D, CHR '' '', CHR 0xA0})"

definition trim :: "string \<Rightarrow> string" where
  "trim s = rev (dropWhile isSpace (rev (dropWhile isSpace s)))"

text \<open>
  \<^verbatim>\<open>(call\d+):\<close> at the start of \<open>s\<close>: the text of group 1 and what follows the colon.
  \<^verbatim>\<open>\d+\<close> takes every digit; giving one back cannot help, as a colon must follow.
\<close>

definition matchMarker :: "string \<Rightarrow> (string \<times> string) option" where
  "matchMarker s =
     (if startsWith s ''call''
      then (let digits = takeWhile isDigit (drop 4 s) in
            case dropWhile isDigit (drop 4 s) of
              c # rest \<Rightarrow>
                if digits \<noteq> [] \<and> c = CHR '':'' then Some (''call'' @ digits, rest) else None
            | [] \<Rightarrow> None)
      else None)"

text \<open>\<^verbatim>\<open>,\s*call\d+:\<close> at the start of \<open>s\<close>: both lookaheads test it.\<close>

definition atSeparator :: "string \<Rightarrow> bool" where
  "atSeparator s =
     (case s of
        c # rest \<Rightarrow> c = CHR '','' \<and> matchMarker (dropWhile isSpace rest) \<noteq> None
      | [] \<Rightarrow> False)"

text \<open>
  Group 2, \<^verbatim>\<open>((?:[^,]|,(?!\s*call\d+:))*)\<close>: the star takes every character but a comma
  that starts a separator. The result is the text of the group and what follows it.
\<close>

fun promptText :: "string \<Rightarrow> string \<times> string" where
  "promptText [] = ([], [])"
| "promptText (c # cs) =
     (if c = CHR '','' \<and> matchMarker (dropWhile isSpace cs) \<noteq> None then ([], c # cs)
      else (let (p, rest) = promptText cs in (c # p, rest)))"

text \<open>
  One attempt to match the whole expression at the start of \<open>s\<close>: groups 1 and 2 and the
  rest of the input. The final lookahead \<^verbatim>\<open>(?=,\s*call\d+:|$)\<close> is tested where the star
  stopped (\<open>promptText_lookahead\<close> below shows that it always holds there, so that the
  star never has to give characters back).
\<close>

definition matchAt :: "string \<Rightarrow> (string \<times> string \<times> string) option" where
  "matchAt s =
     (case matchMarker s of
        None \<Rightarrow> None
      | Some (ident, afterColon) \<Rightarrow>
          (let (p, rest) = promptText (dropWhile isSpace afterColon) in
           if atSeparator rest \<or> rest = [] then Some (ident, p, rest) else None))"

lemma matchMarker_shorter: "matchMarker s = Some (ident, r) \<Longrightarrow> length r < length s"
proof -
  assume m: "matchMarker s = Some (ident, r)"
  then obtain c where "dropWhile isDigit (drop 4 s) = c # r"
    by (auto simp: matchMarker_def Let_def split: if_splits list.splits)
  then have "Suc (length r) = length (dropWhile isDigit (drop 4 s))" by simp
  also have "\<dots> \<le> length (drop 4 s)" by (rule length_dropWhile_le)
  also have "\<dots> \<le> length s" by simp
  finally show ?thesis by simp
qed

lemma promptText_shorter: "length (snd (promptText s)) \<le> length s"
  by (induction s) (auto simp: case_prod_beta)

lemma matchAt_shorter: "matchAt s = Some (ident, p, rest) \<Longrightarrow> length rest < length s"
proof -
  assume m: "matchAt s = Some (ident, p, rest)"
  then obtain r where mm: "matchMarker s = Some (ident, r)"
    and rest: "rest = snd (promptText (dropWhile isSpace r))"
    by (auto simp: matchAt_def Let_def case_prod_beta split: option.splits if_splits)
  have "length rest \<le> length (dropWhile isSpace r)"
    unfolding rest by (rule promptText_shorter)
  also have "\<dots> \<le> length r" by (rule length_dropWhile_le)
  also have "\<dots> < length s" using mm by (rule matchMarker_shorter)
  finally show ?thesis .
qed

text \<open>
  \<^verbatim>\<open>text.matchAll(concurrentCallRegex)\<close>: groups 1 and 2 of every match, from left to
  right; after a match the search goes on where the match ended.
\<close>

function matchAll :: "string \<Rightarrow> (string \<times> string) list" where
  "matchAll [] = []"
| "matchAll (c # cs) =
     (case matchAt (c # cs) of
        Some (ident, p, rest) \<Rightarrow> (ident, p) # matchAll rest
      | None \<Rightarrow> matchAll cs)"
  by pat_completeness auto
termination matchAll
  by (relation "measure length") (auto dest: matchAt_shorter)

text \<open>
  Modelled from the spec: the \<^verbatim>\<open>Config\<close> class (\<^verbatim>\<open>config.ts\<close>) is not among the sources.
  The spec lists the configuration inputs \<^verbatim>\<open>concurrencyEnabled: bool\<close> (default true),
  \<^verbatim>\<open>maxConcurrentCalls: int\<close> (default 3) and
  \<^verbatim>\<open>forcedMode: "sequential"|"concurrent"|none\<close>.
\<close>

datatype ProcessingMode = Sequential | Concurrent

record Config =
  concurrencyEnabled :: bool
  maxConcurrentCalls :: nat
  forcedProcessingMode :: "ProcessingMode option"

definition defaultConcurrency :: Config where
  "defaultConcurrency =
     \<lparr>concurrencyEnabled = True, maxConcurrentCalls = 3, forcedProcessingMode = None\<rparr>"

record ConcurrencyAnalysis =
  hasConcurrentCalls :: bool
  calls :: "ConcurrentCall list"

text \<open>
  \<open>text\<close> is \<^verbatim>\<open>partToString(request)\<close>. The debug log does not change the result.
\<close>

definition parseConcurrentSyntax :: "Config \<Rightarrow> string \<Rightarrow> ConcurrencyAnalysis" where
  "parseConcurrentSyntax config text =
     (if \<not> concurrencyEnabled config then \<lparr>hasConcurrentCalls = False, calls = []\<rparr>
      else if forcedProcessingMode config = Some Sequential
      then \<lparr>hasConcurrentCalls = False, calls = []\<rparr>
      else
        (let matches = matchAll text in
         if length matches > 0
         then \<lparr>hasConcurrentCalls = True,
               calls = map (\<lambda>(ident, p). \<lparr>call_id = ident, prompt = trim p\<rparr>) matches\<rparr>
         else \<lparr>hasConcurrentCalls = False, calls = []\<rparr>))"

text \<open>
  The routing step of \<^verbatim>\<open>sendMessageStream\<close>: \<open>Some\<close> of what the concurrent path
  constructs and yields when concurrent calls are detected, \<open>None\<close> when the request takes
  the sequential path.
\<close>

definition sendMessageStream ::
  "Config \<Rightarrow> (Turn \<Rightarrow> string \<Rightarrow> AbortSignal \<Rightarrow> generator) \<Rightarrow> string \<Rightarrow> AbortSignal \<Rightarrow>
   string \<Rightarrow> (Turn list \<times> EnrichedServerGeminiStreamEvent list) option" where
  "sendMessageStream config run request signal prompt_id =
     (let concurrencyAnalysis = parseConcurrentSyntax config request in
      if hasConcurrentCalls concurrencyAnalysis
      then Some (executeConcurrentStreams run (calls concurrencyAnalysis) signal prompt_id)
      else None)"

subsection \<open>A concrete request\<close>

text \<open>A unit that answers with its request as one \<open>Content\<close> event and returns.\<close>

definition echoRun :: "Turn \<Rightarrow> string \<Rightarrow> AbortSignal \<Rightarrow> generator" where
  "echoRun turn request signal = \<lparr>events = [Content request], ending = Returns\<rparr>"

definition notAborted :: AbortSignal where
  "notAborted = \<lparr>aborted = False\<rparr>"

definition fourCalls :: string where
  "fourCalls = ''call1: a, call2: b, call3: c, call4: d''"

subsection \<open>The claim's reading of the input\<close>

text \<open>The number of positions of the text at which a well-formed marker stands.\<close>

fun countMarkers :: "string \<Rightarrow> nat" where
  "countMarkers [] = 0"
| "countMarkers (c # cs) =
     (if matchMarker (c # cs) \<noteq> None then 1 else 0) + countMarkers cs"

fun noMarkerIn :: "string \<Rightarrow> bool" where
  "noMarkerIn [] = True"
| "noMarkerIn (c # cs) = (matchMarker (c # cs) = None \<and> noMarkerIn cs)"

text \<open>No comma of the text starts a separator \<^verbatim>\<open>,\s*call\d+:\<close>.\<close>

fun noSeparatorIn :: "string \<Rightarrow> bool" where
  "noSeparatorIn [] = True"
| "noSeparatorIn (c # cs) = (\<not> atSeparator (c # cs) \<and> noSeparatorIn cs)"

text \<open>
  A call as it is written: optional white space, \<^verbatim>\<open>call\<close>, the digits, a colon and the
  text of the call. Calls are joined by commas.
\<close>

definition renderCall :: "string \<times> string \<times> string \<Rightarrow> string" where
  "renderCall seg = (case seg of (w, d, b) \<Rightarrow> w @ ''call'' @ d @ '':'' @ b)"

fun renderCalls :: "(string \<times> string \<times> string) list \<Rightarrow> string" where
  "renderCalls [] = []"
| "renderCalls [seg] = renderCall seg"
| "renderCalls (seg # next # others) = renderCall seg @ '','' @ renderCalls (next # others)"

definition validSegment :: "string \<times> string \<times> string \<Rightarrow> bool" where
  "validSegment seg =
     (case seg of (w, d, b) \<Rightarrow>
        list_all isSpace w \<and> d \<noteq> [] \<and> list_all isDigit d \<and> noSeparatorIn b)"

definition callOf :: "string \<times> string \<times> string \<Rightarrow> ConcurrentCall" where
  "callOf seg = (case seg of (w, d, b) \<Rightarrow> \<lparr>call_id = ''call'' @ d, prompt = trim b\<rparr>)"

text \<open>
  Texts that can follow a text without changing whether a marker, or a separator, starts
  inside it: the first character is none of those a marker has after its first; the
  first character is a comma.
\<close>

definition boundary :: "string \<Rightarrow> bool" where
  "boundary x = (case x of [] \<Rightarrow> True | b # x' \<Rightarrow> b \<notin> set ''al:'' \<and> \<not> isDigit b)"

definition sepBoundary :: "string \<Rightarrow> bool" where
  "sepBoundary x = (case x of [] \<Rightarrow> True | b # x' \<Rightarrow> b = CHR '','')"

section \<open>RetryManager: proofs\<close>

lemma retryLoop_returns:
  "op n = Inr v \<Longrightarrow>
   retryLoop rt now cfg cid op n ctx ctxs =
     Some \<lparr>outcome = Inr v, invocations = Suc n, finalContext = ctx,
           retryContexts = ctxs(cid := None)\<rparr>"
  by (simp add: retryLoop.simps [of rt now cfg cid op n])

lemma retryLoop_throws:
  "op n = Inl e \<Longrightarrow>
   greaterEq (attempt ctx) (maxRetries cfg) \<or> \<not> isRetryableError rt e cfg \<Longrightarrow>
   retryLoop rt now cfg cid op n ctx ctxs =
     Some \<lparr>outcome = Inl e, invocations = Suc n, finalContext = ctx\<lparr>lastError := Some e\<rparr>,
           retryContexts = ctxs(cid := None)\<rparr>"
  by (simp add: retryLoop.simps [of rt now cfg cid op n])

lemma retryLoop_retries:
  "op n = Inl e \<Longrightarrow> \<not> greaterEq (attempt ctx) (maxRetries cfg) \<Longrightarrow>
   isRetryableError rt e cfg \<Longrightarrow>
   retryLoop rt now cfg cid op n ctx ctxs =
     retryLoop rt now cfg cid op (Suc n) (retryStep now cfg n e ctx)
       (ctxs(cid \<mapsto> retryStep now cfg n e ctx))"
  by (simp add: retryLoop.simps [of rt now cfg cid op n] Let_def retryStep_def)

lemma attempt_retryStep: "attempt (retryStep now cfg n e ctx) = Suc (attempt ctx)"
  by (simp add: retryStep_def)

lemma retryLoop_cases [case_names returns throws retries]:
  assumes "\<And>v. op n = Inr v \<Longrightarrow> P"
    and "\<And>e. op n = Inl e \<Longrightarrow>
           greaterEq (attempt ctx) (maxRetries cfg) \<or> \<not> isRetryableError rt e cfg \<Longrightarrow> P"
    and "\<And>e. op n = Inl e \<Longrightarrow> \<not> greaterEq (attempt ctx) (maxRetries cfg) \<Longrightarrow>
           isRetryableError rt e cfg \<Longrightarrow> P"
  shows P
proof (cases "op n")
  case (Inr v)
  then show ?thesis using assms(1) by blast
next
  case (Inl e)
  show ?thesis
  proof (cases "\<not> greaterEq (attempt ctx) (maxRetries cfg) \<and> isRetryableError rt e cfg")
    case True
    with Inl show ?thesis using assms(3) by blast
  next
    case False
    with Inl show ?thesis using assms(2) [of e] by blast
  qed
qed

lemma retryLoop_induct [consumes 1, case_names returns throws retries]:
  assumes run: "retryLoop rt now cfg cid op n ctx ctxs = Some r"
    and returns: "\<And>n ctx ctxs v. op n = Inr v \<Longrightarrow>
      P n ctx ctxs \<lparr>outcome = Inr v, invocations = Suc n, finalContext = ctx,
                    retryContexts = ctxs(cid := None)\<rparr>"
    and throws: "\<And>n ctx ctxs e. op n = Inl e \<Longrightarrow>
      greaterEq (attempt ctx) (maxRetries cfg) \<or> \<not> isRetryableError rt e cfg \<Longrightarrow>
      P n ctx ctxs \<lparr>outcome = Inl e, invocations = Suc n,
                    finalContext = ctx\<lparr>lastError := Some e\<rparr>,
                    retryContexts = ctxs(cid := None)\<rparr>"
    and retries: "\<And>n ctx ctxs e r. op n = Inl e \<Longrightarrow>
      \<not> greaterEq (attempt ctx) (maxRetries cfg) \<Longrightarrow> isRetryableError rt e cfg \<Longrightarrow>
      P (Suc n) (retryStep now cfg n e ctx) (ctxs(cid \<mapsto> retryStep now cfg n e ctx)) r \<Longrightarrow>
      P n ctx ctxs r"
  shows "P n ctx ctxs r"
proof -
  define Q where "Q = (\<lambda>rt' now' cfg' cid' op' n ctx ctxs r.
    rt' = rt \<and> now' = now \<and> cfg' = cfg \<and> cid' = cid \<and> op' = op \<longrightarrow> P n ctx ctxs r)"
  have "Q rt now cfg cid op n ctx ctxs r"
    apply (rule retryLoop.raw_induct [where P = Q, OF _ run])
    subgoal premises prems for f rt' now' cfg' cid' op' n ctx ctxs r
      unfolding Q_def
    proof (intro impI, elim conjE)
      assume eqs: "rt' = rt" "now' = now" "cfg' = cfg" "cid' = cid" "op' = op"
      show "P n ctx ctxs r"
      proof (cases rule: retryLoop_cases [where op = op and n = n and cfg = cfg and ctx = ctx and rt = rt])
        case (returns v)
        with prems(2) eqs have "r = \<lparr>outcome = Inr v, invocations = Suc n, finalContext = ctx,
                    retryContexts = ctxs(cid := None)\<rparr>" by simp
        with returns show ?thesis by (simp add: assms(2))
      next
        case (throws e)
        with prems(2) eqs have "r = \<lparr>outcome = Inl e, invocations = Suc n,
                    finalContext = ctx\<lparr>lastError := Some e\<rparr>,
                    retryContexts = ctxs(cid := None)\<rparr>" by auto
        with throws show ?thesis by (simp add: assms(3))
      next
        case (retries e)
        with prems(2) eqs have "f rt now cfg cid op (Suc n) (retryStep now cfg n e ctx)
            (ctxs(cid \<mapsto> retryStep now cfg n e ctx)) = Some r"
          by (simp add: Let_def retryStep_def)
        then have "Q rt now cfg cid op (Suc n) (retryStep now cfg n e ctx)
            (ctxs(cid \<mapsto> retryStep now cfg n e ctx)) r" by (rule prems(1))
        then have "P (Suc n) (retryStep now cfg n e ctx)
            (ctxs(cid \<mapsto> retryStep now cfg n e ctx)) r" by (simp add: Q_def)
        with retries show ?thesis by (rule assms(4))
      qed
    qed
    done
  then show ?thesis by (simp add: Q_def)
qed


lemma greaterEq_Finite: "greaterEq a (Finite x) = (nat \<lceil>x\<rceil> \<le> a)"
  by (simp add: greaterEq_def)

lemma not_greaterEq_Finite: "\<not> greaterEq a (Finite x) \<Longrightarrow> a < nat \<lceil>x\<rceil>"
  by (simp only: greaterEq_Finite not_le)

lemma retryLoop_bound:
  assumes "retryLoop rt now cfg cid op n ctx ctxs = Some r"
    and "maxRetries cfg = Finite x"
  shows "invocations r \<le> Suc (n + (nat \<lceil>x\<rceil> - attempt ctx))"
  using assms
proof (induction n ctx ctxs r rule: retryLoop_induct)
  case (returns n ctx ctxs v)
  show ?case by simp
next
  case (throws n ctx ctxs e)
  show ?case by simp
next
  case (retries n ctx ctxs e r)
  from retries(2) have "attempt ctx < nat \<lceil>x\<rceil>"
    unfolding retries(5) by (rule not_greaterEq_Finite)
  with retries(4) [OF retries(5)] show ?case by (simp add: attempt_retryStep)
qed

lemma retryLoop_terminates:
  "maxRetries cfg = Finite x \<Longrightarrow> \<exists>r. retryLoop rt now cfg cid op n ctx ctxs = Some r"
proof (induction "nat \<lceil>x\<rceil> - attempt ctx" arbitrary: n ctx ctxs)
  case 0
  then have stop: "greaterEq (attempt ctx) (maxRetries cfg)"
    by (simp only: greaterEq_Finite)
  show ?case
  proof (cases "op n")
    case (Inr v) then show ?thesis by (simp add: retryLoop_returns)
  next
    case (Inl e) with stop show ?thesis by (simp add: retryLoop_throws)
  qed
next
  case (Suc m)
  show ?case
  proof (cases rule: retryLoop_cases [where op = op and n = n and cfg = cfg and ctx = ctx and rt = rt])
    case (returns v) then show ?thesis by (simp add: retryLoop_returns)
  next
    case (throws e) then show ?thesis by (simp add: retryLoop_throws)
  next
    case (retries e)
    from Suc.hyps(2) have "m = nat \<lceil>x\<rceil> - attempt (retryStep now cfg n e ctx)"
      by (simp add: attempt_retryStep)
    from Suc.hyps(1) [OF this Suc.prems, of "Suc n" "ctxs(cid \<mapsto> retryStep now cfg n e ctx)"] retries
    show ?thesis by (simp add: retryLoop_retries)
  qed
qed

text \<open>
  The loop ends as soon as an invocation returns, or throws an error that is not retried.
\<close>

lemma retryLoop_ends:
  "n \<le> k \<Longrightarrow>
   (\<forall>e. op k = Inl e \<longrightarrow>
      greaterEq (attempt ctx + (k - n)) (maxRetries cfg) \<or> \<not> isRetryableError rt e cfg) \<Longrightarrow>
   \<exists>r. retryLoop rt now cfg cid op n ctx ctxs = Some r"
proof (induction "k - n" arbitrary: n ctx ctxs)
  case 0
  then have "k = n" by simp
  with "0.prems"(2) show ?case
    by (cases "op n") (simp_all add: retryLoop_returns retryLoop_throws)
next
  case (Suc m)
  show ?case
  proof (cases rule: retryLoop_cases [where op = op and n = n and cfg = cfg and ctx = ctx and rt = rt])
    case (returns v) then show ?thesis by (simp add: retryLoop_returns)
  next
    case (throws e) then show ?thesis by (simp add: retryLoop_throws)
  next
    case (retries e)
    let ?ctx = "retryStep now cfg n e ctx"
    from Suc.hyps(2) have m: "m = k - Suc n" and le: "Suc n \<le> k" by simp_all
    from le have "attempt ?ctx + (k - Suc n) = attempt ctx + (k - n)"
      by (simp add: attempt_retryStep)
    with Suc.prems(2)
    have "\<forall>e. op k = Inl e \<longrightarrow>
      greaterEq (attempt ?ctx + (k - Suc n)) (maxRetries cfg) \<or> \<not> isRetryableError rt e cfg"
      by simp
    from Suc.hyps(1) [OF m le this, of "ctxs(cid \<mapsto> ?ctx)"] retries
    show ?thesis by (simp add: retryLoop_retries)
  qed
qed

text \<open>
  The loop never ends when every invocation throws a retryable error and the attempts
  never reach \<open>maxRetries\<close>.
\<close>

lemma retryLoop_never_ends:
  assumes "\<And>a. \<not> greaterEq a (maxRetries cfg)"
    and "\<And>k. \<exists>e. op k = Inl e \<and> isRetryableError rt e cfg"
  shows "retryLoop rt now cfg cid op n ctx ctxs = None"
proof (rule ccontr)
  assume "retryLoop rt now cfg cid op n ctx ctxs \<noteq> None"
  then obtain r where "retryLoop rt now cfg cid op n ctx ctxs = Some r" by blast
  then show False
  proof (induction n ctx ctxs r rule: retryLoop_induct)
    case (returns n ctx ctxs v)
    with assms(2) [of n] show ?case by simp
  next
    case (throws n ctx ctxs e)
    with assms(1) [of "attempt ctx"] assms(2) [of n] show ?case by auto
  next
    case (retries n ctx ctxs e r)
    then show ?case by simp
  qed
qed

lemma retryLoop_outcome:
  assumes "retryLoop rt now cfg cid op n ctx ctxs = Some r"
  shows "outcome r = op (invocations r - 1)"
  using assms by (induction n ctx ctxs r rule: retryLoop_induct) simp_all

lemma retryLoop_contexts:
  assumes "retryLoop rt now cfg cid op n ctx ctxs = Some r"
  shows "retryContexts r = ctxs(cid := None)"
  using assms
proof (induction n ctx ctxs r rule: retryLoop_induct)
  case (returns n ctx ctxs v)
  show ?case by simp
next
  case (throws n ctx ctxs e)
  show ?case by simp
next
  case (retries n ctx ctxs e r)
  from retries(4) show ?case by (simp only: fun_upd_upd)
qed

lemma retryLoop_lastError:
  assumes "retryLoop rt now cfg cid op n ctx ctxs = Some r"
    and "outcome r = Inl err"
  shows "lastError (finalContext r) = Some err"
  using assms by (induction n ctx ctxs r rule: retryLoop_induct) simp_all

lemma retryLoop_trace:
  assumes "retryLoop rt now cfg cid op n ctx ctxs = Some r"
  shows "n < invocations r \<and>
   (\<forall>k. n \<le> k \<and> k < invocations r \<longrightarrow>
      (Suc k < invocations r) =
      (\<exists>e. op k = Inl e \<and> \<not> greaterEq (attempt ctx + (k - n)) (maxRetries cfg)
            \<and> isRetryableError rt e cfg))"
  using assms
proof (induction n ctx ctxs r rule: retryLoop_induct)
  case (returns n ctx ctxs v)
  let ?r = "\<lparr>outcome = Inr v, invocations = Suc n, finalContext = ctx,
             retryContexts = ctxs(cid := None)\<rparr>"
  show ?case
  proof (intro conjI allI impI)
    show "n < invocations ?r" by simp
  next
    fix k
    assume "n \<le> k \<and> k < invocations ?r"
    then have "k = n" by simp
    with returns show "(Suc k < invocations ?r) =
      (\<exists>e. op k = Inl e \<and> \<not> greaterEq (attempt ctx + (k - n)) (maxRetries cfg)
            \<and> isRetryableError rt e cfg)" by simp
  qed
next
  case (throws n ctx ctxs e)
  let ?r = "\<lparr>outcome = Inl e, invocations = Suc n,
             finalContext = ctx\<lparr>lastError := Some e\<rparr>,
             retryContexts = ctxs(cid := None)\<rparr>"
  show ?case
  proof (intro conjI allI impI)
    show "n < invocations ?r" by simp
  next
    fix k
    assume "n \<le> k \<and> k < invocations ?r"
    then have "k = n" by simp
    with throws show "(Suc k < invocations ?r) =
      (\<exists>e. op k = Inl e \<and> \<not> greaterEq (attempt ctx + (k - n)) (maxRetries cfg)
            \<and> isRetryableError rt e cfg)" by auto
  qed
next
  case (retries n ctx ctxs e r)
  let ?ctx = "retryStep now cfg n e ctx"
  from retries(4) have more: "Suc n < invocations r" by (rule conjunct1)
  from retries(4) have later: "\<forall>k. Suc n \<le> k \<and> k < invocations r \<longrightarrow>
      (Suc k < invocations r) =
      (\<exists>e. op k = Inl e \<and> \<not> greaterEq (attempt ?ctx + (k - Suc n)) (maxRetries cfg)
            \<and> isRetryableError rt e cfg)"
    by (rule conjunct2)
  show ?case
  proof (intro conjI allI impI)
    from more show "n < invocations r" by simp
  next
    fix k
    assume "n \<le> k \<and> k < invocations r"
    then have nk: "n \<le> k" and k: "k < invocations r" by simp_all
    show "(Suc k < invocations r) =
      (\<exists>e. op k = Inl e \<and> \<not> greaterEq (attempt ctx + (k - n)) (maxRetries cfg)
            \<and> isRetryableError rt e cfg)"
    proof (cases "k = n")
      case True
      with more retries(1,2,3) show ?thesis by simp
    next
      case False
      with nk have le: "Suc n \<le> k" by simp
      have "attempt ?ctx + (k - Suc n) = attempt ctx + (k - n)"
        using le by (simp add: attempt_retryStep)
      moreover from later le k have "(Suc k < invocations r) =
        (\<exists>e. op k = Inl e \<and> \<not> greaterEq (attempt ?ctx + (k - Suc n)) (maxRetries cfg)
              \<and> isRetryableError rt e cfg)"
        by (simp only: simp_thms)
      ultimately show ?thesis by (simp only:)
    qed
  qed
qed

lemma retryLoop_invocations:
  assumes "retryLoop rt now cfg cid op n ctx ctxs = Some r"
  shows "n < invocations r"
  using retryLoop_trace [OF assms] by (rule conjunct1)

lemma retryLoop_retried_iff:
  assumes "retryLoop rt now cfg cid op n ctx ctxs = Some r"
    and "n \<le> k" and "k < invocations r"
  shows "(Suc k < invocations r) =
   (\<exists>e. op k = Inl e \<and> \<not> greaterEq (attempt ctx + (k - n)) (maxRetries cfg)
         \<and> isRetryableError rt e cfg)"
  using conjunct2 [OF retryLoop_trace [OF assms(1)]] assms(2,3) by (simp only: simp_thms)

lemma retryLoop_failures_before:
  assumes "retryLoop rt now cfg cid op n ctx ctxs = Some r"
    and "n \<le> k" and "Suc k < invocations r"
  shows "isl (op k)"
proof -
  from assms(3) have "k < invocations r" by simp
  from retryLoop_retried_iff [OF assms(1,2) this] assms(3) show ?thesis by auto
qed

lemma executeWithRetry_loop:
  "executeWithRetry rt now dflt ctxs cid op config =
     retryLoop rt now (case config of Some c \<Rightarrow> c | None \<Rightarrow> dflt) cid op 0
       (case ctxs cid of Some c \<Rightarrow> c
        | None \<Rightarrow> \<lparr>rc_callId = cid, attempt = 0, lastError = None, nextRetryTime = None\<rparr>)
       (case ctxs cid of Some c \<Rightarrow> ctxs
        | None \<Rightarrow> ctxs(cid \<mapsto> \<lparr>rc_callId = cid, attempt = 0, lastError = None,
                                  nextRetryTime = None\<rparr>))"
  by (simp add: executeWithRetry_def Let_def split: option.splits)

lemma isRetryableError_iff:
  "isRetryableError rt e cfg =
     (\<exists>m. message e = Some m \<and> m \<noteq> [] \<and>
          (\<exists>p \<in> set (retryableErrors cfg). matchesPattern rt m p))"
  by (auto simp: isRetryableError_def list_ex_iff split: option.splits)

lemma maxRetries_retryOnReset: "maxRetries (retryOnReset m) = m"
  by (simp add: retryOnReset_def)

lemma retryOnReset_fields:
  "backoffMs (retryOnReset m) = 100"
  "exponentialBackoff (retryOnReset m)"
  "retryableErrors (retryOnReset m) = [''ECONNRESET'']"
  by (simp_all add: retryOnReset_def)

lemma econnreset_retryable: "isRetryableError literalOnly econnreset (retryOnReset m)"
  by (simp add: isRetryableError_def econnreset_def retryOnReset_def matchesPattern_def
      startsWith_def endsWith_def)

lemma resetOnce_run:
  "executeWithRetry literalOnly fixedClock (retryOnReset (Finite 2)) Map.empty ''call1''
     resetOnce None =
     Some \<lparr>outcome = Inr 42, invocations = 2,
           finalContext = \<lparr>rc_callId = ''call1'', attempt = 1, lastError = Some econnreset,
                           nextRetryTime = Some 100\<rparr>,
           retryContexts = Map.empty\<rparr>"
  by (simp add: executeWithRetry_def retryLoop.simps resetOnce_def econnreset_retryable
      maxRetries_retryOnReset greaterEq_def calculateBackoff_def fixedClock_def
      retryOnReset_fields)

lemma alwaysReset_throws_at_once:
  "greaterEq 0 m \<Longrightarrow>
   executeWithRetry literalOnly fixedClock (retryOnReset m) Map.empty ''call1'' alwaysReset None =
     Some \<lparr>outcome = Inl econnreset, invocations = 1,
           finalContext = \<lparr>rc_callId = ''call1'', attempt = 0, lastError = Some econnreset,
                           nextRetryTime = None\<rparr>,
           retryContexts = Map.empty\<rparr>"
  by (simp add: executeWithRetry_loop retryLoop_throws alwaysReset_def maxRetries_retryOnReset)

lemma alwaysReset_never_ends:
  "(\<And>a. \<not> greaterEq a m) \<Longrightarrow>
   executeWithRetry literalOnly fixedClock (retryOnReset m) Map.empty ''call1'' alwaysReset None =
     None"
  unfolding executeWithRetry_loop
  by (rule retryLoop_never_ends)
     (simp_all add: maxRetries_retryOnReset alwaysReset_def econnreset_retryable)

lemma alwaysReset_three_halves:
  "map_option invocations
     (executeWithRetry literalOnly fixedClock (retryOnReset (Finite (3 / 2))) Map.empty ''call1''
        alwaysReset None) = Some 3"
  by (simp add: executeWithRetry_def retryLoop.simps alwaysReset_def econnreset_retryable
      maxRetries_retryOnReset greaterEq_def)

lemma alwaysReset_once:
  "executeWithRetry literalOnly fixedClock (retryOnReset (Finite 1)) Map.empty ''call1''
     alwaysReset None =
   Some \<lparr>outcome = Inl econnreset, invocations = 2,
         finalContext = \<lparr>rc_callId = ''call1'', attempt = 1, lastError = Some econnreset,
                         nextRetryTime = Some 100\<rparr>,
         retryContexts = Map.empty\<rparr>"
  by (simp add: executeWithRetry_def retryLoop.simps alwaysReset_def econnreset_retryable
      maxRetries_retryOnReset greaterEq_def calculateBackoff_def fixedClock_def
      retryOnReset_fields)

text \<open>
  C7, as stated, fails: with \<open>maxRetries = 0\<close> an error whose message contains the
  configured literal \<open>ECONNRESET\<close> is not retried; the operation is invoked once and
  the error is thrown.
\<close>

theorem C7_retried_iff_matches_counterexample:
  "list_ex (matchesPattern literalOnly ''read ECONNRESET'')
     (retryableErrors (retryOnReset (Finite 0))) \<and>
   alwaysReset 0 = Inl econnreset \<and>
   message econnreset = Some ''read ECONNRESET'' \<and>
   invoked (executeWithRetry literalOnly fixedClock (retryOnReset (Finite 0)) Map.empty ''call1''
              alwaysReset None) 0 \<and>
   \<not> retried (executeWithRetry literalOnly fixedClock (retryOnReset (Finite 0)) Map.empty
                ''call1'' alwaysReset None) 0 \<and>
   map_option invocations
     (executeWithRetry literalOnly fixedClock (retryOnReset (Finite 0)) Map.empty ''call1''
        alwaysReset None) = Some 1 \<and>
   map_option outcome
     (executeWithRetry literalOnly fixedClock (retryOnReset (Finite 0)) Map.empty ''call1''
        alwaysReset None) = Some (Inl econnreset)"
  by (simp add: alwaysReset_throws_at_once greaterEq_def alwaysReset_def retryOnReset_fields
      invoked_def retried_def
      econnreset_def matchesPattern_def startsWith_def endsWith_def)

text \<open>
  C7, amended: an error thrown by the \<open>k\<close>-th invocation is followed by another
  invocation if and only if the retries made so far have not reached \<open>maxRetries\<close> (the
  guard \<^verbatim>\<open>context.attempt >= retryConfig.maxRetries\<close> is false) and the error is
  retryable, that is, it has a non-empty message that matches at least one configured
  pattern (as a regular expression when the pattern starts and ends with a slash and
  compiles, as a literal substring otherwise). An error that is not retryable ends the
  call at once: the call ends, it is the error thrown, and no further invocation follows.
  The statement covers the runs that never end as well.
\<close>

theorem C7_retried_iff_retryable_and_attempts_left:
  fixes operation :: "nat \<Rightarrow> JsError + 'a"
  assumes run: "run = executeWithRetry regexTest now defaultConfig ctxs cid operation config"
    and cfg: "retryConfig = (case config of Some c \<Rightarrow> c | None \<Rightarrow> defaultConfig)"
    and k: "invoked run k"
    and err: "operation k = Inl e"
  shows "(retried run k =
            (\<not> greaterEq (initialAttempt ctxs cid + k) (maxRetries retryConfig) \<and>
             isRetryableError regexTest e retryConfig)) \<and>
         (isRetryableError regexTest e retryConfig =
            (\<exists>m. message e = Some m \<and> m \<noteq> [] \<and>
                 (\<exists>p \<in> set (retryableErrors retryConfig). matchesPattern regexTest m p))) \<and>
         (\<not> isRetryableError regexTest e retryConfig \<longrightarrow>
            (\<exists>r. run = Some r \<and> invocations r = Suc k \<and> outcome r = Inl e))"
proof -
  let ?ctx = "case ctxs cid of Some c \<Rightarrow> c
     | None \<Rightarrow> \<lparr>rc_callId = cid, attempt = 0, lastError = None, nextRetryTime = None\<rparr>"
  let ?ctxs = "case ctxs cid of Some c \<Rightarrow> ctxs
     | None \<Rightarrow> ctxs(cid \<mapsto> \<lparr>rc_callId = cid, attempt = 0, lastError = None,
                                nextRetryTime = None\<rparr>)"
  have loop: "run = retryLoop regexTest now retryConfig cid operation 0 ?ctx ?ctxs"
    by (simp only: run cfg executeWithRetry_loop)
  have att: "attempt ?ctx = initialAttempt ctxs cid"
    by (simp add: initialAttempt_def split: option.splits)
  have iff: "retried run k =
           (\<not> greaterEq (initialAttempt ctxs cid + k) (maxRetries retryConfig) \<and>
            isRetryableError regexTest e retryConfig)"
  proof (cases run)
    case None
    have "\<not> greaterEq (initialAttempt ctxs cid + k) (maxRetries retryConfig) \<and>
          isRetryableError regexTest e retryConfig"
    proof (rule ccontr)
      assume "\<not> (\<not> greaterEq (initialAttempt ctxs cid + k) (maxRetries retryConfig) \<and>
          isRetryableError regexTest e retryConfig)"
      with err have "\<forall>e. operation k = Inl e \<longrightarrow>
          greaterEq (attempt ?ctx + (k - 0)) (maxRetries retryConfig) \<or>
          \<not> isRetryableError regexTest e retryConfig"
        by (simp add: att)
      from retryLoop_ends [where n = 0 and k = k and op = operation and ctx = "?ctx"
          and cfg = retryConfig and rt = regexTest and now = now and cid = cid
          and ctxs = "?ctxs", OF le0 this] None loop
      show False by simp
    qed
    with None show ?thesis by (simp add: retried_def)
  next
    case (Some r)
    with loop have r: "retryLoop regexTest now retryConfig cid operation 0 ?ctx ?ctxs = Some r"
      by simp
    from k Some have "k < invocations r" by (simp add: invoked_def)
    from retryLoop_retried_iff [OF r le0 this] err Some show ?thesis
      by (simp add: att retried_def)
  qed
  have stop: "\<exists>r. run = Some r \<and> invocations r = Suc k \<and> outcome r = Inl e"
    if "\<not> isRetryableError regexTest e retryConfig"
  proof -
    from iff that have not: "\<not> retried run k" by simp
    then obtain r where some: "run = Some r" by (cases run) (simp_all add: retried_def)
    with not k have inv: "invocations r = Suc k" by (simp add: retried_def invoked_def)
    from some loop
    have "retryLoop regexTest now retryConfig cid operation 0 ?ctx ?ctxs = Some r" by simp
    then have "outcome r = operation (invocations r - 1)" by (rule retryLoop_outcome)
    with inv err some show ?thesis by simp
  qed
  from iff stop isRetryableError_iff [of regexTest e retryConfig] show ?thesis by blast
qed

theorem C7_retried_iff_retryable_and_attempts_left_witness:
  "invoked (executeWithRetry literalOnly fixedClock (retryOnReset (Finite 2)) Map.empty ''call1''
              resetOnce None) 0 \<and>
   resetOnce 0 = Inl econnreset \<and>
   retried (executeWithRetry literalOnly fixedClock (retryOnReset (Finite 2)) Map.empty ''call1''
              resetOnce None) 0 \<and>
   \<not> greaterEq (initialAttempt Map.empty ''call1'' + 0) (maxRetries (retryOnReset (Finite 2))) \<and>
   isRetryableError literalOnly econnreset (retryOnReset (Finite 2))"
proof -
  have k: "invoked (executeWithRetry literalOnly fixedClock (retryOnReset (Finite 2)) Map.empty
                      ''call1'' resetOnce None) 0"
    by (simp add: resetOnce_run invoked_def)
  have err: "resetOnce 0 = Inl econnreset" by (simp add: resetOnce_def)
  have cfg: "retryOnReset (Finite 2) =
    (case None of Some c \<Rightarrow> c | None \<Rightarrow> retryOnReset (Finite 2))" by simp
  from C7_retried_iff_retryable_and_attempts_left [OF refl cfg k err] k err
  show ?thesis by (simp add: resetOnce_run retried_def)
qed

text \<open>
  C8: when \<^verbatim>\<open>executeWithRetry\<close> ends, whether it returns or throws, no RetryContext is
  stored for the call id; and when it throws, the error thrown is the \<open>lastError\<close> of the
  context object of the final attempt.
\<close>

theorem C8_context_discarded_and_lastError_thrown:
  fixes operation :: "nat \<Rightarrow> JsError + 'a"
  assumes run: "executeWithRetry regexTest now defaultConfig ctxs cid operation config = Some r"
  shows "retryContexts r cid = None \<and>
         (\<forall>e. outcome r = Inl e \<longrightarrow> lastError (finalContext r) = Some e)"
proof -
  let ?ctx = "case ctxs cid of Some c \<Rightarrow> c
     | None \<Rightarrow> \<lparr>rc_callId = cid, attempt = 0, lastError = None, nextRetryTime = None\<rparr>"
  let ?ctxs = "case ctxs cid of Some c \<Rightarrow> ctxs
     | None \<Rightarrow> ctxs(cid \<mapsto> \<lparr>rc_callId = cid, attempt = 0, lastError = None,
                                nextRetryTime = None\<rparr>)"
  have r: "retryLoop regexTest now (case config of Some c \<Rightarrow> c | None \<Rightarrow> defaultConfig) cid
             operation 0 ?ctx ?ctxs = Some r"
    using run by (simp only: executeWithRetry_loop)
  from retryLoop_contexts [OF r] have "retryContexts r cid = None" by simp
  moreover have "lastError (finalContext r) = Some e" if "outcome r = Inl e" for e
    using r that by (rule retryLoop_lastError)
  ultimately show ?thesis by blast
qed

theorem C8_context_discarded_and_lastError_thrown_witness:
  "executeWithRetry literalOnly fixedClock (retryOnReset (Finite 1)) Map.empty ''call1''
     alwaysReset None =
   Some \<lparr>outcome = Inl econnreset, invocations = 2,
         finalContext = \<lparr>rc_callId = ''call1'', attempt = 1, lastError = Some econnreset,
                         nextRetryTime = Some 100\<rparr>,
         retryContexts = Map.empty\<rparr> \<and>
   retryContexts
     \<lparr>outcome = Inl econnreset, invocations = 2,
      finalContext = \<lparr>rc_callId = ''call1'', attempt = 1, lastError = Some econnreset,
                      nextRetryTime = Some 100\<rparr>,
      retryContexts = Map.empty\<rparr> ''call1'' = None \<and>
   lastError (finalContext
     \<lparr>outcome = Inl econnreset :: JsError + nat, invocations = 2,
      finalContext = \<lparr>rc_callId = ''call1'', attempt = 1, lastError = Some econnreset,
                      nextRetryTime = Some 100\<rparr>,
      retryContexts = Map.empty\<rparr>) = Some econnreset"
  using C8_context_discarded_and_lastError_thrown [OF alwaysReset_once]
  by (simp add: alwaysReset_once)

text \<open>
  C10, as stated, fails: \<^verbatim>\<open>maxRetries\<close> is not validated. With \<open>maxRetries = -1\<close> the
  operation is invoked once, which is more than \<open>maxRetries + 1 = 0\<close> times; with
  \<open>maxRetries = 1.5\<close> it is invoked three times, which is more than \<open>2.5\<close>; with
  \<^verbatim>\<open>Infinity\<close> or \<^verbatim>\<open>NaN\<close> an operation that keeps throwing a retryable error is retried
  for ever, and the call never ends.
\<close>

theorem C10_unvalidated_maxRetries_counterexample:
  "map_option invocations
     (executeWithRetry literalOnly fixedClock (retryOnReset (Finite (- 1))) Map.empty ''call1''
        alwaysReset None) = Some 1 \<and>
   \<not> real 1 \<le> - 1 + 1 \<and>
   map_option invocations
     (executeWithRetry literalOnly fixedClock (retryOnReset (Finite (3 / 2))) Map.empty ''call1''
        alwaysReset None) = Some 3 \<and>
   \<not> real 3 \<le> 3 / 2 + 1 \<and>
   executeWithRetry literalOnly fixedClock (retryOnReset PosInfinity) Map.empty ''call1''
     alwaysReset None = None \<and>
   executeWithRetry literalOnly fixedClock (retryOnReset NaN) Map.empty ''call1''
     alwaysReset None = None"
  by (simp add: alwaysReset_throws_at_once alwaysReset_three_halves alwaysReset_never_ends
      greaterEq_def)

text \<open>
  C10, amended: when \<open>maxRetries\<close> is a finite number \<open>x\<close>, not above \<open>2\<^sup>5\<^sup>3\<close> (up to
  which the attempts are counted exactly), \<^verbatim>\<open>executeWithRetry\<close>, started for a call id
  that has no RetryContext, ends after at least one and at most \<open>max 0 \<lceil>x\<rceil> + 1\<close>
  invocations of the operation, which is \<open>maxRetries + 1\<close> when \<open>maxRetries\<close> is a natural
  number; every invocation but the last one threw, and the call returns the value, or
  throws the error, of the last invocation.
\<close>

theorem C10_at_most_maxRetries_plus_one_invocations:
  fixes operation :: "nat \<Rightarrow> JsError + 'a"
  assumes fresh: "ctxs cid = None"
    and cfg: "retryConfig = (case config of Some c \<Rightarrow> c | None \<Rightarrow> defaultConfig)"
    and finite: "maxRetries retryConfig = Finite x"
    and exact: "x \<le> 2 ^ 53"
  shows "\<exists>r. executeWithRetry regexTest now defaultConfig ctxs cid operation config = Some r \<and>
           0 < invocations r \<and> invocations r \<le> nat \<lceil>x\<rceil> + 1 \<and>
           (\<forall>m. x = real m \<longrightarrow> invocations r \<le> m + 1) \<and>
           (\<forall>k. Suc k < invocations r \<longrightarrow> isl (operation k)) \<and>
           outcome r = operation (invocations r - 1)"
proof -
  let ?ctx = "\<lparr>rc_callId = cid, attempt = 0, lastError = None, nextRetryTime = None\<rparr>"
  have loop: "executeWithRetry regexTest now defaultConfig ctxs cid operation config =
      retryLoop regexTest now retryConfig cid operation 0 ?ctx (ctxs(cid \<mapsto> ?ctx))"
    by (simp add: cfg executeWithRetry_loop fresh)
  from retryLoop_terminates [OF finite]
  obtain r where r: "retryLoop regexTest now retryConfig cid operation 0 ?ctx
      (ctxs(cid \<mapsto> ?ctx)) = Some r" by blast
  from retryLoop_invocations [OF r] have pos: "0 < invocations r" .
  from retryLoop_bound [OF r finite] have bound: "invocations r \<le> nat \<lceil>x\<rceil> + 1" by simp
  then have int: "invocations r \<le> m + 1" if "x = real m" for m using that by simp
  have before: "isl (operation k)" if "Suc k < invocations r" for k
    using r le0 that by (rule retryLoop_failures_before)
  have "outcome r = operation (invocations r - 1)"
    using r by (rule retryLoop_outcome)
  with r pos bound int before show ?thesis unfolding loop by blast
qed

theorem C10_at_most_maxRetries_plus_one_invocations_witness:
  "Map.empty ''call1'' = (None :: RetryContext option) \<and>
   maxRetries (retryOnReset (Finite 2)) = Finite (real 2) \<and> real 2 \<le> 2 ^ 53 \<and>
   executeWithRetry literalOnly fixedClock (retryOnReset (Finite 2)) Map.empty ''call1''
     resetOnce None =
     Some \<lparr>outcome = Inr 42, invocations = 2,
           finalContext = \<lparr>rc_callId = ''call1'', attempt = 1, lastError = Some econnreset,
                           nextRetryTime = Some 100\<rparr>,
           retryContexts = Map.empty\<rparr> \<and>
   (2::nat) \<le> 2 + 1 \<and> isl (resetOnce 0) \<and> resetOnce 1 = Inr 42"
proof -
  have fresh: "Map.empty ''call1'' = (None :: RetryContext option)" by simp
  have cfg: "retryOnReset (Finite 2) =
    (case None of Some c \<Rightarrow> c | None \<Rightarrow> retryOnReset (Finite 2))" by simp
  have finite: "maxRetries (retryOnReset (Finite 2)) = Finite (real 2)"
    by (simp add: maxRetries_retryOnReset)
  have exact: "real 2 \<le> 2 ^ 53" by simp
  from C10_at_most_maxRetries_plus_one_invocations [where ctxs = Map.empty
      and cid = "''call1''" and regexTest = literalOnly and now = fixedClock
      and operation = resetOnce and defaultConfig = "retryOnReset (Finite 2)" and config = None,
      OF fresh cfg finite exact]
  show ?thesis by (simp add: resetOnce_run resetOnce_def maxRetries_retryOnReset)
qed

section \<open>StreamAggregator: proofs\<close>

lemma fst_pass: "fst (pass md gs) = concat (map (\<lambda>g. fst (advance md g)) gs)"
  by (induction gs) (simp_all add: case_prod_beta)

lemma snd_pass: "snd (pass md gs) = map (\<lambda>g. snd (advance md g)) gs"
  by (induction gs) (simp_all add: case_prod_beta)

lemma advance_remaining:
  "remaining md g = fst (advance md g) @ remaining md (snd (advance md g))"
  by (auto simp: remaining_def advance_def gen_next_def unitOutput_def
      split: list.splits ending.splits)

lemma advance_callId: "gi_callId (snd (advance md g)) = gi_callId g"
  by (auto simp: advance_def gen_next_def split: list.splits ending.splits)

lemma advance_output_callId: "e \<in> set (fst (advance md g)) \<Longrightarrow> callId e = gi_callId g"
  by (auto simp: advance_def gen_next_def enrich_def errorEvent_def
      split: list.splits ending.splits if_splits)

lemma mergeLoop_stop:
  "\<not> list_ex (\<lambda>g. \<not> gi_done g) gens \<Longrightarrow> mergeLoop md gens = ([], gens)"
  by (simp add: mergeLoop.simps [of md gens])

lemma mergeLoop_round:
  "list_ex (\<lambda>g. \<not> gi_done g) gens \<Longrightarrow>
   mergeLoop md gens =
     (fst (pass md gens) @ fst (mergeLoop md (snd (pass md gens))),
      snd (mergeLoop md (snd (pass md gens))))"
  by (simp add: mergeLoop.simps [of md gens] Let_def)

lemma remaining_all_done:
  "\<not> list_ex (\<lambda>g. \<not> gi_done g) gens \<Longrightarrow> g \<in> set gens \<Longrightarrow> remaining md g = []"
  by (auto simp: list_ex_iff remaining_def)

lemma mset_concat_split:
  "mset (concat (map f xs)) + mset (concat (map (\<lambda>x. h (k x)) xs)) =
   mset (concat (map (\<lambda>x. f x @ h (k x)) xs))"
  by (induction xs) simp_all

text \<open>
  Whatever the interleaving, the loop yields exactly what is left of every unit.
\<close>

lemma mergeLoop_mset:
  "mset (fst (mergeLoop md gens)) = mset (concat (map (remaining md) gens))"
proof (induction md gens rule: mergeLoop.induct)
  case (1 md gens)
  show ?case
  proof (cases "list_ex (\<lambda>g. \<not> gi_done g) gens")
    case False
    then have "concat (map (remaining md) gens) = []"
      by (auto simp: remaining_all_done)
    with False show ?thesis by (simp add: mergeLoop_stop)
  next
    case True
    from "1.IH" [OF True refl]
    have "mset (fst (mergeLoop md (snd (pass md gens)))) =
          mset (concat (map (remaining md) (snd (pass md gens))))" .
    then have "mset (fst (mergeLoop md gens)) =
        mset (concat (map (\<lambda>g. fst (advance md g)) gens)) +
        mset (concat (map (\<lambda>g. remaining md (snd (advance md g))) gens))"
      by (simp add: mergeLoop_round [OF True] fst_pass snd_pass o_def)
    also have "\<dots> =
        mset (concat (map (\<lambda>g. fst (advance md g) @ remaining md (snd (advance md g))) gens))"
      by (rule mset_concat_split)
    also have "\<dots> = mset (concat (map (remaining md) gens))"
      by (simp add: advance_remaining [symmetric])
    finally show ?thesis .
  qed
qed

lemma mergeLoop_all_done: "list_all gi_done (snd (mergeLoop md gens))"
proof (induction md gens rule: mergeLoop.induct)
  case (1 md gens)
  show ?case
  proof (cases "list_ex (\<lambda>g. \<not> gi_done g) gens")
    case False
    then show ?thesis by (simp add: mergeLoop_stop list_ex_iff list_all_iff)
  next
    case True
    from "1.IH" [OF True refl] show ?thesis by (simp add: mergeLoop_round [OF True])
  qed
qed

lemma filter_concat_unique:
  "i < length xs \<Longrightarrow> (\<forall>j < length xs. j \<noteq> i \<longrightarrow> filter P (f (xs ! j)) = []) \<Longrightarrow>
   filter P (concat (map f xs)) = filter P (f (xs ! i))"
proof (induction xs arbitrary: i)
  case Nil
  then show ?case by simp
next
  case (Cons x xs)
  show ?case
  proof (cases i)
    case 0
    have "filter P (concat (map f xs)) = []"
    proof -
      have "filter P (f y) = []" if "y \<in> set xs" for y
      proof -
        from that obtain j where "j < length xs" "xs ! j = y" by (auto simp: in_set_conv_nth)
        with Cons.prems(2) 0 show ?thesis by (auto dest: spec [of _ "Suc j"])
      qed
      then show ?thesis by (induction xs) simp_all
    qed
    with 0 show ?thesis by simp
  next
    case (Suc i')
    from Cons.prems(2) Suc have "filter P (f x) = []" by (auto dest: spec [of _ 0])
    moreover have "filter P (concat (map f xs)) = filter P (f (xs ! i'))"
    proof (rule Cons.IH)
      from Cons.prems(1) Suc show "i' < length xs" by simp
      from Cons.prems(2) Suc show "\<forall>j<length xs. j \<noteq> i' \<longrightarrow> filter P (f (xs ! j)) = []"
        by (auto dest: spec [of _ "Suc j" for j])
    qed
    ultimately show ?thesis using Suc by simp
  qed
qed

lemma filter_other_callId:
  "gi_callId g \<noteq> c \<Longrightarrow> filter (\<lambda>e. callId e = c) (fst (advance md g)) = []"
  by (auto simp: filter_empty_conv dest: advance_output_callId)

lemma filter_own_callId:
  "filter (\<lambda>e. callId e = gi_callId g) (fst (advance md g)) = fst (advance md g)"
  by (auto simp: filter_id_conv dest: advance_output_callId)

text \<open>
  The events that carry the call id of a unit, when no other unit has that call id, are
  what is left of that unit, in order.
\<close>

lemma mergeLoop_filter:
  "i < length gens \<Longrightarrow>
   (\<forall>j < length gens. j \<noteq> i \<longrightarrow> gi_callId (gens ! j) \<noteq> gi_callId (gens ! i)) \<Longrightarrow>
   filter (\<lambda>e. callId e = gi_callId (gens ! i)) (fst (mergeLoop md gens)) = remaining md (gens ! i)"
proof (induction md gens rule: mergeLoop.induct)
  case (1 md gens)
  let ?c = "gi_callId (gens ! i)"
  show ?case
  proof (cases "list_ex (\<lambda>g. \<not> gi_done g) gens")
    case False
    with "1.prems"(1) have "remaining md (gens ! i) = []"
      by (simp add: remaining_all_done)
    with False show ?thesis by (simp add: mergeLoop_stop)
  next
    case True
    let ?gens' = "snd (pass md gens)"
    have len: "length ?gens' = length gens" by (simp add: snd_pass)
    have nth: "?gens' ! j = snd (advance md (gens ! j))" if "j < length gens" for j
      using that by (simp add: snd_pass)
    have ids: "gi_callId (?gens' ! j) = gi_callId (gens ! j)" if "j < length gens" for j
      using that by (simp add: nth advance_callId)
    have "filter (\<lambda>e. callId e = gi_callId (?gens' ! i)) (fst (mergeLoop md ?gens')) =
          remaining md (?gens' ! i)"
    proof (rule "1.IH" [OF True refl])
      from "1.prems"(1) show "i < length ?gens'" by (simp add: len)
      from "1.prems" show "\<forall>j<length ?gens'. j \<noteq> i \<longrightarrow>
          gi_callId (?gens' ! j) \<noteq> gi_callId (?gens' ! i)"
        by (simp add: len ids)
    qed
    then have later: "filter (\<lambda>e. callId e = ?c) (fst (mergeLoop md ?gens')) =
          remaining md (snd (advance md (gens ! i)))"
      using "1.prems"(1) by (simp add: nth advance_callId)
    have "filter (\<lambda>e. callId e = ?c) (fst (pass md gens)) =
          filter (\<lambda>e. callId e = ?c) (fst (advance md (gens ! i)))"
      unfolding fst_pass
    proof (rule filter_concat_unique [OF "1.prems"(1)])
      from "1.prems"(2) show "\<forall>j<length gens. j \<noteq> i \<longrightarrow>
          filter (\<lambda>e. callId e = ?c) (fst (advance md (gens ! j))) = []"
        by (simp add: filter_other_callId)
    qed
    then have now: "filter (\<lambda>e. callId e = ?c) (fst (pass md gens)) = fst (advance md (gens ! i))"
      by (simp add: filter_own_callId)
    show ?thesis
      by (simp add: mergeLoop_round [OF True] now later advance_remaining [symmetric])
  qed
qed

subsection \<open>Call metadata\<close>

lemma update_new_key: "k \<notin> fst ` set al \<Longrightarrow> AList.update k v al = al @ [(k, v)]"
  by (induction al) auto

lemma callMetadata_snoc:
  "callMetadata (cs @ [c]) = AList.update (call_id c) c (callMetadata cs)"
  by (simp add: callMetadata_def)

lemma callMetadata_distinct_keys: "distinct (map fst (callMetadata cs))"
  by (induction cs rule: rev_induct)
     (simp_all add: callMetadata_snoc distinct_update, simp add: callMetadata_def)

lemma callMetadata_distinct:
  "distinct (map call_id cs) \<Longrightarrow> callMetadata cs = map (\<lambda>c. (call_id c, c)) cs"
proof (induction cs rule: rev_induct)
  case Nil
  show ?case by (simp add: callMetadata_def)
next
  case (snoc c cs)
  then have md: "callMetadata cs = map (\<lambda>c. (call_id c, c)) cs" by simp
  from snoc.prems have "call_id c \<notin> fst ` set (map (\<lambda>c. (call_id c, c)) cs)"
    by (auto simp: image_iff)
  then show ?case by (simp add: callMetadata_snoc md update_new_key)
qed

lemma activeGenerators_length: "length (activeGenerators cs streams) = length streams"
  by (simp add: activeGenerators_def)

lemma activeGenerators_nth:
  "i < length streams \<Longrightarrow>
   activeGenerators cs streams ! i =
     \<lparr>gi_generator = streams ! i, gi_callId = callIdAt (map fst (callMetadata cs)) i,
      gi_done = False\<rparr>"
  by (simp add: activeGenerators_def)

lemma remaining_activeGenerators:
  "map (remaining (callMetadata cs)) (activeGenerators cs streams) = expectedUnits cs streams"
  by (simp add: activeGenerators_def expectedUnits_def remaining_def case_prod_beta)

lemma length_unitOutput:
  "length (unitOutput md cid gen) = length (events gen) + (if throws gen then 1 else 0)"
  by (simp add: unitOutput_def throws_def split: ending.splits)

lemma length_units_pairs:
  "length (concat (map (\<lambda>(gen, index). unitOutput md (f index) gen) ps)) =
     sum_list (map (\<lambda>gen. length (events gen)) (map fst ps)) +
     length (filter throws (map fst ps))"
  by (induction ps) (auto simp: length_unitOutput)

lemma length_expectedUnits:
  "length (concat (expectedUnits cs streams)) =
     sum_list (map (\<lambda>gen. length (events gen)) streams) + length (filter throws streams)"
  unfolding expectedUnits_def length_units_pairs by simp

lemma callIdAt_distinct:
  "distinct (map call_id cs) \<Longrightarrow> i < length cs \<Longrightarrow>
   callIdAt (map fst (callMetadata cs)) i = Some (call_id (cs ! i))"
  by (simp add: callMetadata_distinct callIdAt_def o_def)

lemma titleOf_distinct:
  assumes "distinct (map call_id cs)" "i < length cs"
  shows "titleOf (callMetadata cs) (Some (call_id (cs ! i))) =
         Some (if prompt (cs ! i) = [] then call_id (cs ! i) else prompt (cs ! i))"
proof -
  have md: "callMetadata cs = map (\<lambda>c. (call_id c, c)) cs"
    using assms(1) by (rule callMetadata_distinct)
  have "distinct (map fst (callMetadata cs))" by (rule callMetadata_distinct_keys)
  moreover have "(call_id (cs ! i), cs ! i) \<in> set (callMetadata cs)"
    using assms(2) by (auto simp: md)
  ultimately have "map_of (callMetadata cs) (call_id (cs ! i)) = Some (cs ! i)"
    by (rule map_of_is_SomeI)
  then show ?thesis by (simp add: titleOf_def)
qed

lemma callIdAt_unique:
  assumes "distinct ids" "i < length ids" "j \<noteq> i"
  shows "callIdAt ids j \<noteq> callIdAt ids i"
  using assms by (auto simp: callIdAt_def nth_eq_iff_index_eq)

lemma mergeStreams_mset:
  "mset (fst (mergeStreams cs streams)) = mset (concat (expectedUnits cs streams))"
  by (simp add: mergeStreams_def mergeLoop_mset remaining_activeGenerators)

lemma mergeStreams_filter_unit:
  assumes ids: "distinct (map call_id cs)" and ic: "i < length cs"
    and il: "i < length streams"
  shows "filter (\<lambda>e. callId e = Some (call_id (cs ! i))) (fst (mergeStreams cs streams)) =
         unitOutput (callMetadata cs) (Some (call_id (cs ! i))) (streams ! i)"
proof -
  let ?md = "callMetadata cs"
  let ?gens = "activeGenerators cs streams"
  let ?keys = "map fst ?md"
  have keys: "distinct ?keys" by (rule callMetadata_distinct_keys)
  have len: "length ?keys = length cs"
    using ids by (simp add: callMetadata_distinct)
  have own: "gi_callId (?gens ! i) = Some (call_id (cs ! i))"
    using il by (simp add: activeGenerators_nth callIdAt_distinct [OF ids ic])
  have i': "i < length ?gens" using il by (simp add: activeGenerators_length)
  have unique: "\<forall>j < length ?gens. j \<noteq> i \<longrightarrow> gi_callId (?gens ! j) \<noteq> gi_callId (?gens ! i)"
  proof (intro allI impI)
    fix j assume j: "j < length ?gens" and ne: "j \<noteq> i"
    from ic len have "i < length ?keys" by simp
    from callIdAt_unique [OF keys this ne] j il
    show "gi_callId (?gens ! j) \<noteq> gi_callId (?gens ! i)"
      by (simp add: activeGenerators_nth activeGenerators_length)
  qed
  from mergeLoop_filter [OF i' unique, of ?md]
  have "filter (\<lambda>e. callId e = Some (call_id (cs ! i))) (fst (mergeLoop ?md ?gens)) =
        remaining ?md (?gens ! i)"
    by (simp only: own)
  also have "remaining ?md (?gens ! i) =
        unitOutput ?md (Some (call_id (cs ! i))) (streams ! i)"
    using il by (simp add: remaining_def activeGenerators_nth callIdAt_distinct [OF ids ic])
  finally show ?thesis by (simp only: mergeStreams_def)
qed

lemma event_unitOutput:
  "map event (unitOutput md cid gen) =
     events gen @
     (case ending gen of
        Returns \<Rightarrow> []
      | Throws m \<Rightarrow> [Error (''Error in call '' @ showCallId cid @ '': '' @ m) None])"
  by (simp add: unitOutput_def enrich_def errorEvent_def o_def split: ending.splits)

lemma expectedUnits_nth:
  "i < length streams \<Longrightarrow>
   expectedUnits cs streams ! i =
     unitOutput (callMetadata cs) (callIdAt (map fst (callMetadata cs)) i) (streams ! i)"
  by (simp add: expectedUnits_def)

lemma merge_example:
  "fst (mergeStreams pingPong [failsAfterOne, completes]) =
     [\<lparr>event = Content ''partial'', callId = Some ''call1'', callTitle = Some ''ping''\<rparr>,
      \<lparr>event = Content ''pong!'', callId = Some ''call2'', callTitle = Some ''pong''\<rparr>,
      \<lparr>event = Error ''Error in call call1: boom'' None, callId = Some ''call1'',
        callTitle = Some ''ping''\<rparr>,
      \<lparr>event = Finished ''STOP'', callId = Some ''call2'', callTitle = Some ''pong''\<rparr>]"
  by (simp add: mergeStreams_def mergeLoop.simps activeGenerators_def callMetadata_def
      pingPong_def failsAfterOne_def completes_def advance_def gen_next_def enrich_def
      errorEvent_def titleOf_def showCallId_def callIdAt_def upt_rec)

text \<open>
  Isolation in \<^verbatim>\<open>StreamAggregator\<close>: the stream \<^verbatim>\<open>mergeStreams\<close> yields is a
  rearrangement of the contributions of all units, where a unit contributes its own events, attributed, and then exactly one
  synthesized \<open>Error\<close> event if it throws; so it has as many events as the units emit,
  plus one for every unit that throws. When the loop ends every unit is marked done
  (the loop ends: \<open>mergeLoop\<close> is total). With one stream per call and distinct call ids,
  the attribution of unit \<open>i\<close> is the id of call \<open>i\<close> and its prompt (its id, if the prompt
  is empty).
\<close>

lemma mergeStreams_isolation:
  "mset (fst (mergeStreams cs streams)) = mset (concat (expectedUnits cs streams)) \<and>
   length (fst (mergeStreams cs streams)) =
     sum_list (map (\<lambda>gen. length (events gen)) streams) + length (filter throws streams) \<and>
   list_all gi_done (snd (mergeStreams cs streams)) \<and>
   (\<forall>i. distinct (map call_id cs) \<and> i < length cs \<and> i < length streams \<longrightarrow>
      expectedUnits cs streams ! i =
        unitOutput (callMetadata cs) (Some (call_id (cs ! i))) (streams ! i) \<and>
      titleOf (callMetadata cs) (Some (call_id (cs ! i))) =
        Some (if prompt (cs ! i) = [] then call_id (cs ! i) else prompt (cs ! i)))"
proof -
  have "length (fst (mergeStreams cs streams)) = length (concat (expectedUnits cs streams))"
    using mergeStreams_mset [of cs streams] by (rule mset_eq_length)
  then have "length (fst (mergeStreams cs streams)) =
     sum_list (map (\<lambda>gen. length (events gen)) streams) + length (filter throws streams)"
    by (simp only: length_expectedUnits)
  moreover have "list_all gi_done (snd (mergeStreams cs streams))"
    by (simp add: mergeStreams_def mergeLoop_all_done)
  ultimately show ?thesis
    by (simp add: mergeStreams_mset expectedUnits_nth callIdAt_distinct titleOf_distinct)
qed

lemma mergeStreams_isolation_example:
  "distinct (map call_id pingPong) \<and> (0::nat) < length pingPong \<and>
   (0::nat) < length [failsAfterOne, completes] \<and>
   mset (fst (mergeStreams pingPong [failsAfterOne, completes])) =
     mset (concat (expectedUnits pingPong [failsAfterOne, completes])) \<and>
   length (fst (mergeStreams pingPong [failsAfterOne, completes])) = 3 + 1 \<and>
   list_all gi_done (snd (mergeStreams pingPong [failsAfterOne, completes])) \<and>
   expectedUnits pingPong [failsAfterOne, completes] ! 0 =
     [\<lparr>event = Content ''partial'', callId = Some ''call1'', callTitle = Some ''ping''\<rparr>,
      \<lparr>event = Error ''Error in call call1: boom'' None, callId = Some ''call1'',
        callTitle = Some ''ping''\<rparr>]"
proof -
  have d: "distinct (map call_id pingPong)" by (simp add: pingPong_def)
  have l: "(0::nat) < length pingPong" by (simp add: pingPong_def)
  have t: "titleOf (callMetadata pingPong) (Some ''call1'') = Some ''ping''"
    by (simp add: titleOf_def callMetadata_def pingPong_def)
  from mergeStreams_isolation [of pingPong "[failsAfterOne, completes]"]
  have "mset (fst (mergeStreams pingPong [failsAfterOne, completes])) =
          mset (concat (expectedUnits pingPong [failsAfterOne, completes]))"
    and "length (fst (mergeStreams pingPong [failsAfterOne, completes])) =
          sum_list (map (\<lambda>gen. length (events gen)) [failsAfterOne, completes]) +
          length (filter throws [failsAfterOne, completes])"
    and "list_all gi_done (snd (mergeStreams pingPong [failsAfterOne, completes]))"
    and "distinct (map call_id pingPong) \<and> 0 < length pingPong \<and>
         0 < length [failsAfterOne, completes] \<longrightarrow>
         expectedUnits pingPong [failsAfterOne, completes] ! 0 =
           unitOutput (callMetadata pingPong) (Some (call_id (pingPong ! 0)))
             ([failsAfterOne, completes] ! 0)"
    by blast+
  with d l t show ?thesis
    by (simp add: failsAfterOne_def completes_def throws_def unitOutput_def enrich_def
        errorEvent_def showCallId_def pingPong_def)
qed

text \<open>
  C5, as stated, fails for a unit that throws: the events attributed to it are its own
  events followed by the synthesized \<open>Error\<close> event.
\<close>

theorem C5_unit_subsequence_counterexample:
  "map event (filter (\<lambda>e. callId e = Some ''call1'')
                (fst (mergeStreams pingPong [failsAfterOne, completes]))) \<noteq>
   events failsAfterOne"
  unfolding merge_example by (simp add: failsAfterOne_def)

text \<open>
  C5, amended: with distinct call ids, the merged events that carry the id of call \<open>i\<close>
  are, in this order, the events of unit \<open>i\<close> in the order the unit emitted them, each
  with the unit's attribution, followed by one synthesized \<open>Error\<close> event exactly when the
  unit throws.
\<close>

theorem C5_unit_subsequence_in_order:
  assumes "distinct (map call_id cs)" and "i < length cs" and "i < length streams"
  shows "filter (\<lambda>e. callId e = Some (call_id (cs ! i))) (fst (mergeStreams cs streams)) =
           unitOutput (callMetadata cs) (Some (call_id (cs ! i))) (streams ! i) \<and>
         map event (filter (\<lambda>e. callId e = Some (call_id (cs ! i)))
                      (fst (mergeStreams cs streams))) =
           events (streams ! i) @
           (case ending (streams ! i) of
              Returns \<Rightarrow> []
            | Throws m \<Rightarrow> [Error (''Error in call '' @ call_id (cs ! i) @ '': '' @ m) None])"
  using mergeStreams_filter_unit [OF assms]
  by (simp add: event_unitOutput showCallId_def split: ending.splits)

theorem C5_unit_subsequence_in_order_witness:
  "distinct (map call_id pingPong) \<and> (1::nat) < length pingPong \<and>
   (1::nat) < length [failsAfterOne, completes] \<and>
   map event (filter (\<lambda>e. callId e = Some (call_id (pingPong ! 1)))
                (fst (mergeStreams pingPong [failsAfterOne, completes]))) =
     events completes"
proof -
  have d: "distinct (map call_id pingPong)" by (simp add: pingPong_def)
  have l: "(1::nat) < length pingPong" by (simp add: pingPong_def)
  have s: "(1::nat) < length [failsAfterOne, completes]" by simp
  from C5_unit_subsequence_in_order [OF d l s] d l s show ?thesis
    by (simp add: completes_def event_unitOutput)
qed

section \<open>StreamMultiplexer: proofs\<close>

text \<open>
  \<^verbatim>\<open>Promise.race(promises)\<close> is a new object at every call, so no element of the array is
  ever found equal to it and nothing is removed.
\<close>
lemma findRaced_none:
  "list_all (\<lambda>p. np_identity p < fresh) ps \<Longrightarrow>
   findRaced fresh k ps = (None, fresh + length ps)"
proof (induction ps arbitrary: fresh k)
  case Nil
  show ?case by simp
next
  case (Cons p ps)
  from Cons.prems have "np_identity p \<noteq> fresh"
    and "list_all (\<lambda>p. np_identity p < Suc fresh) ps"
    by (auto simp: list_all_iff)
  with Cons.IH [of "Suc fresh" "Suc k"] show ?case by simp
qed

lemma removeRaced_keeps:
  "list_all (\<lambda>p. np_identity p < created st) (promises st) \<Longrightarrow>
   removeRaced st = st\<lparr>created := created st + length (promises st)\<rparr>"
  by (simp add: removeRaced_def findRaced_none)

lemma raceIteration_promises:
  assumes "allCreated st"
  shows "allCreated (snd (raceIteration w t st)) \<and>
         (\<exists>new. promises (snd (raceIteration w t st)) = promises st @ new)"
proof -
  let ?st0 = "st\<lparr>created := Suc (created st)\<rparr>"
  from assms have "list_all (\<lambda>p. np_identity p < created ?st0) (promises ?st0)"
    by (auto simp: allCreated_def list_all_iff)
  from removeRaced_keeps [OF this]
  have r: "removeRaced ?st0 = st\<lparr>created := Suc (created st) + length (promises st)\<rparr>"
    by simp
  from assms show ?thesis
    unfolding raceIteration_def Let_def r
    by (auto simp: allCreated_def list_all_iff split: next_result.splits prod.splits)
qed

lemma raceLoop_never_completes:
  "allCreated st \<Longrightarrow> promises st \<noteq> [] \<Longrightarrow>
   snd (raceLoop n scheduler clock False st) = StillRunning"
proof (induction n arbitrary: st)
  case 0
  then show ?case by simp
next
  case (Suc n)
  let ?st' = "snd (raceIteration (scheduler (promises st)) (clock n) st)"
  from raceIteration_promises [OF Suc.prems(1), of "scheduler (promises st)" "clock n"]
  obtain new where "allCreated ?st'" and "promises ?st' = promises st @ new" by blast
  with Suc.prems(2) have "allCreated ?st'" and "promises ?st' \<noteq> []" by simp_all
  from Suc.IH [OF this] Suc.prems(2) show ?case
    by (simp add: case_prod_beta)
qed

lemma startRace_allCreated: "allCreated (startRace generators)"
  by (auto simp: allCreated_def startRace_def list_all_iff dest!: set_zip_rightD)

lemma mergeStreamsWithMetadata_never_completes:
  "snd (mergeStreamsWithMetadata n scheduler clock (g # gs) False) = StillRunning"
  unfolding mergeStreamsWithMetadata_def
  by (rule raceLoop_never_completes [OF startRace_allCreated]) (simp add: startRace_def upt_rec)

lemma raisesAtOnce_iteration:
  "raceLoop n earliest clock False
     \<lparr>mx_generators = gens,
      promises = [\<lparr>np_identity = 0, np_index = 0, np_settles = Thrown ''boom''\<rparr>],
      created = Suc c\<rparr> = ([], StillRunning)"
proof (induction n arbitrary: c)
  case 0
  show ?case by simp
next
  case (Suc n)
  have "raceIteration 0 (clock n)
     \<lparr>mx_generators = gens,
      promises = [\<lparr>np_identity = 0, np_index = 0, np_settles = Thrown ''boom''\<rparr>],
      created = Suc c\<rparr> =
     ([], \<lparr>mx_generators = gens,
      promises = [\<lparr>np_identity = 0, np_index = 0, np_settles = Thrown ''boom''\<rparr>],
      created = Suc (Suc (Suc c))\<rparr>)"
    by (simp add: raceIteration_def removeRaced_def)
  with Suc.IH [of "Suc (Suc c)"] show ?case
    by (simp add: earliest_def)
qed

lemma raisesAtOnce_run:
  "mergeStreamsWithMetadata n earliest clock [raisesAtOnce] False = ([], StillRunning)"
  by (simp add: mergeStreamsWithMetadata_def startRace_def raisesAtOnce_def gen_next_def
      raisesAtOnce_iteration)

lemma raisesAtOnce_aggregated:
  "fst (mergeStreams [\<lparr>call_id = ''call1'', prompt = ''ping''\<rparr>] [gm_generator raisesAtOnce]) =
     [\<lparr>event = Error ''Error in call call1: boom'' None, callId = Some ''call1'',
       callTitle = Some ''ping''\<rparr>]"
  by (simp add: mergeStreams_def mergeLoop.simps activeGenerators_def callMetadata_def
      raisesAtOnce_def advance_def gen_next_def enrich_def
      errorEvent_def titleOf_def showCallId_def callIdAt_def upt_rec)

text \<open>
  C1 fails for \<^verbatim>\<open>StreamMultiplexer.mergeStreamsWithMetadata\<close>. Given at least one
  generator and a signal that is not aborted, the loop is still running after any number
  of iterations, whatever the order in which the promises settle: no promise is ever
  removed from the array, so the merge does not end. For a single unit that throws at
  its first \<^verbatim>\<open>next()\<close> it yields nothing at all, so no \<open>Error\<close> event for the unit either,
  where \<^verbatim>\<open>StreamAggregator.mergeStreams\<close> yields the one synthesized \<open>Error\<close> event with the
  unit's id and title and ends.
\<close>

theorem C1_multiplexer_never_ends_and_drops_the_failure:
  "snd (mergeStreamsWithMetadata n scheduler clock (g # gs) False) = StillRunning \<and>
   mergeStreamsWithMetadata n earliest clock [raisesAtOnce] False = ([], StillRunning) \<and>
   fst (mergeStreams [\<lparr>call_id = ''call1'', prompt = ''ping''\<rparr>] [gm_generator raisesAtOnce]) =
     [\<lparr>event = Error ''Error in call call1: boom'' None, callId = Some ''call1'',
       callTitle = Some ''ping''\<rparr>]"
  by (simp only: mergeStreamsWithMetadata_never_completes raisesAtOnce_run
      raisesAtOnce_aggregated simp_thms)

section \<open>FileLockManager: proofs\<close>

lemma lockInvariantI:
  assumes "liveLocks obs = mset (map snd (locks m))"
    and "distinct (map (\<lambda>x. lf (fst x)) (locks m))"
    and "\<And>x. x \<in> set (locks m) \<Longrightarrow> lk_path (snd x) = fst x"
    and "\<And>x. x \<in> set (locks m) \<Longrightarrow> lf (fst x) \<in> lockFiles m"
  shows "lockInvariant lf obs m"
  using assms unfolding lockInvariant_def by blast

lemma lockInvariant_frame:
  assumes "lockInvariant lf obs m" and "locks m' = locks m" and "lockFiles m' = lockFiles m"
  shows "lockInvariant lf obs m'"
  using assms unfolding lockInvariant_def by simp

lemma liveLocks_Nil: "liveLocks [] = {#}"
  by (simp add: liveLocks_def)

lemma liveLocks_append_Nil: "liveLocks (obs @ []) = liveLocks obs"
  by simp

lemma liveLocks_Granted: "liveLocks (obs @ [Granted l]) = add_mset l (liveLocks obs)"
  by (simp add: liveLocks_def)

lemma liveLocks_Removed: "liveLocks (obs @ [Removed l]) = liveLocks obs - {#l#}"
  by (simp add: liveLocks_def)

lemma distinct_keys: "distinct (map (\<lambda>x. lf (fst x)) al) \<Longrightarrow> distinct (map fst al)"
  by (induction al) (auto simp: image_iff)

lemma delete_filter: "AList.delete k al = filter (\<lambda>x. fst x \<noteq> k) al"
  by (induction al) auto

lemma mset_delete:
  "distinct (map fst al) \<Longrightarrow> (p, l) \<in> set al \<Longrightarrow>
   mset (map snd (AList.delete p al)) = mset (map snd al) - {#l#}"
proof (induction al)
  case Nil
  then show ?case by simp
next
  case (Cons x al)
  show ?case
  proof (cases "fst x = p")
    case True
    with Cons.prems have x: "x = (p, l)" by (cases x) (auto simp: image_iff)
    from Cons.prems True have "p \<notin> fst ` set al" by simp
    then have "AList.delete p al = al" by (auto simp: delete_filter filter_id_conv)
    with x show ?thesis by simp
  next
    case False
    with Cons.prems have "(p, l) \<in> set al" by auto
    with Cons.IH Cons.prems have "mset (map snd (AList.delete p al)) = mset (map snd al) - {#l#}"
      by simp
    moreover from \<open>(p, l) \<in> set al\<close> have "l \<in># mset (map snd al)" by force
    ultimately show ?thesis using False by (cases x) simp
  qed
qed

lemma find_in_set: "find P xs = Some x \<Longrightarrow> x \<in> set xs"
  by (auto simp: find_Some_iff)

lemma tryAcquireLock_invariant:
  assumes inv: "lockInvariant lf obs m"
    and t: "tryAcquireLock lf e m p c = (r, m')"
  shows "lockInvariant lf (obs @ granted r) m'"
proof (cases r)
  case (Inl err)
  with t have "m' = m"
    by (auto simp: tryAcquireLock_def Let_def split: if_splits)
  with inv Inl show ?thesis by (simp add: granted_def)
next
  case (Inr lock)
  with t have free: "lf p \<notin> lockFiles m"
    and lock: "lock = \<lparr>lk_path = p, lockId = newLockId e, acquiredAt = dateNow e, lk_callId = c\<rparr>"
    and m': "m' = m\<lparr>lockFiles := insert (lf p) (lockFiles m),
                    locks := AList.update p lock (locks m)\<rparr>"
    by (auto simp: tryAcquireLock_def Let_def split: if_splits)
  from inv free have fresh: "lf p \<notin> (\<lambda>x. lf (fst x)) ` set (locks m)"
    by (auto simp: lockInvariant_def)
  then have "p \<notin> fst ` set (locks m)" by auto
  then have upd: "AList.update p lock (locks m) = locks m @ [(p, lock)]"
    by (rule update_new_key)
  have locks': "locks m' = locks m @ [(p, lock)]" by (simp add: m' upd)
  have files': "lockFiles m' = insert (lf p) (lockFiles m)" by (simp add: m')
  from inv have live: "liveLocks obs = mset (map snd (locks m))"
    and dl: "distinct (map (\<lambda>x. lf (fst x)) (locks m))"
    and paths: "\<And>x. x \<in> set (locks m) \<Longrightarrow> lk_path (snd x) = fst x"
    and files: "\<And>x. x \<in> set (locks m) \<Longrightarrow> lf (fst x) \<in> lockFiles m"
    unfolding lockInvariant_def by blast+
  show ?thesis
  proof (rule lockInvariantI)
    show "liveLocks (obs @ granted r) = mset (map snd (locks m'))"
      by (simp add: Inr granted_def liveLocks_Granted live locks')
    show "distinct (map (\<lambda>x. lf (fst x)) (locks m'))"
      using dl fresh by (simp add: locks')
    show "lk_path (snd x) = fst x" if "x \<in> set (locks m')" for x
      using that paths by (auto simp: locks' lock)
    show "lf (fst x) \<in> lockFiles m'" if "x \<in> set (locks m')" for x
    proof (cases "x \<in> set (locks m)")
      case True
      from files [OF this] show ?thesis by (simp add: files')
    next
      case False
      with that have "x = (p, lock)" by (simp add: locks')
      then show ?thesis by (simp add: files')
    qed
  qed
qed

lemma processQueue_invariant:
  assumes inv: "lockInvariant lf obs m"
    and p: "processQueue lf e m filePath = (obs1, m')"
  shows "lockInvariant lf (obs @ obs1) m'"
proof (cases "queue m filePath")
  case None
  with p inv show ?thesis by (simp add: processQueue_def)
next
  case (Some reqs)
  show ?thesis
  proof (cases reqs)
    case Nil
    with Some p inv show ?thesis by (simp add: processQueue_def)
  next
    case (Cons nextRequest rest)
    let ?m1 = "m\<lparr>queue := (queue m)(filePath \<mapsto> rest)\<rparr>"
    obtain r m2 where t: "tryAcquireLock lf e ?m1 (rq_path nextRequest) (rq_callId nextRequest)
        = (r, m2)" by force
    from inv have "lockInvariant lf obs ?m1" by (rule lockInvariant_frame) simp_all
    from tryAcquireLock_invariant [OF this t] Some Cons p t show ?thesis
      by (simp add: processQueue_def Let_def)
  qed
qed

lemma releaseLock_invariant:
  assumes inv: "lockInvariant lf obs m"
    and rel: "releaseLock lf e m lid = (obs1, m')"
  shows "lockInvariant lf (obs @ obs1) m'"
proof (cases "find (\<lambda>(filePath, lock). lockId lock = lid) (locks m)")
  case None
  with rel inv show ?thesis by (simp add: releaseLock_def)
next
  case (Some x)
  obtain filePath lock where x: "x = (filePath, lock)" by (cases x)
  from Some x have mem: "(filePath, lock) \<in> set (locks m)" by (auto dest: find_in_set)
  let ?m1 = "if unlinkFails e then m else m\<lparr>lockFiles := lockFiles m - {lf filePath}\<rparr>"
  let ?m2 = "?m1\<lparr>locks := AList.delete filePath (locks ?m1)\<rparr>"
  obtain obs2 m3 where pq: "processQueue lf e ?m2 filePath = (obs2, m3)" by force
  from inv have dk: "distinct (map fst (locks m))"
    by (auto simp: lockInvariant_def dest: distinct_keys)
  have locks2: "locks ?m2 = filter (\<lambda>x. fst x \<noteq> filePath) (locks m)"
    by (simp add: delete_filter)
  have live: "liveLocks (obs @ [Removed lock]) = mset (map snd (locks ?m2))"
    using inv mset_delete [OF dk mem]
    by (simp add: liveLocks_Removed lockInvariant_def)
  have dl: "distinct (map (\<lambda>x. lf (fst x)) (locks ?m2))"
    using inv unfolding locks2 lockInvariant_def by (simp add: distinct_map_filter)
  have files: "lk_path (snd y) = fst y \<and> lf (fst y) \<in> lockFiles ?m2"
    if y: "y \<in> set (locks ?m2)" for y
  proof -
    from y have ym: "y \<in> set (locks m)" and ne: "fst y \<noteq> filePath"
      by (simp_all add: locks2)
    from inv ym have a: "lk_path (snd y) = fst y" and b: "lf (fst y) \<in> lockFiles m"
      by (auto simp: lockInvariant_def)
    from inv have "inj_on (\<lambda>x. lf (fst x)) (set (locks m))"
      by (simp add: lockInvariant_def distinct_map)
    from inj_onD [OF this _ ym mem] ne have "lf (fst y) \<noteq> lf filePath" by auto
    with a b show ?thesis by simp
  qed
  have "lockInvariant lf (obs @ [Removed lock]) ?m2"
    unfolding lockInvariant_def using live dl files by blast
  from processQueue_invariant [OF this pq] Some x rel pq show ?thesis
    by (simp add: releaseLock_def Let_def)
qed

lemma acquireLock_invariant:
  assumes inv: "lockInvariant lf obs m"
    and a: "acquireLock lf e m request = (pr, obs1, m')"
  shows "lockInvariant lf (obs @ obs1) m'"
proof (cases "isLocked m (rq_path request)")
  case True
  with a have "obs1 = []" and "locks m' = locks m" and "lockFiles m' = lockFiles m"
    by (auto simp: acquireLock_def Let_def)
  with lockInvariant_frame [OF inv] show ?thesis by simp
next
  case False
  obtain r m1 where t: "tryAcquireLock lf e m (rq_path request) (rq_callId request) = (r, m1)"
    by force
  from tryAcquireLock_invariant [OF inv t] False a t show ?thesis
    by (simp add: acquireLock_def Let_def)
qed

lemma onTimeout_invariant:
  "lockInvariant lf obs m \<Longrightarrow> lockInvariant lf obs (onTimeout m i)"
  by (erule lockInvariant_frame) (simp_all add: onTimeout_def Let_def)

lemma onInterval_invariant:
  assumes inv: "lockInvariant lf obs m"
    and a: "onInterval lf e m i = (obs1, m')"
  shows "lockInvariant lf (obs @ obs1) m'"
proof (cases "i < length (waiters m) \<and> checkInterval (waiters m ! i)
    \<and> \<not> isLocked m (rq_path (w_request (waiters m ! i)))")
  case False
  with a have "obs1 = []" and "m' = m"
    by (auto simp: onInterval_def Let_def split: if_splits)
  with inv show ?thesis by simp
next
  case True
  let ?w = "waiters m ! i"
  obtain r m1 where t: "tryAcquireLock lf e m (rq_path (w_request ?w)) (rq_callId (w_request ?w))
      = (r, m1)" by force
  from tryAcquireLock_invariant [OF inv t] have "lockInvariant lf (obs @ granted r) m1" .
  then have "lockInvariant lf (obs @ granted r) (m1\<lparr>waiters := ws\<rparr>)" for ws
    by (rule lockInvariant_frame) simp_all
  with True a t show ?thesis by (auto simp: onInterval_def Let_def)
qed

lemma step_invariant:
  assumes inv: "lockInvariant lf obs m"
    and s: "step lf m cb = (obs1, m')"
  shows "lockInvariant lf (obs @ obs1) m'"
proof (cases cb)
  case (Acquire request e)
  obtain pr where "acquireLock lf e m request = (pr, obs1, m')"
    using s Acquire by (cases "acquireLock lf e m request") (simp add: step_def)
  from acquireLock_invariant [OF inv this] show ?thesis .
next
  case (Release lid e)
  with s have "releaseLock lf e m lid = (obs1, m')" by (simp add: step_def)
  from releaseLock_invariant [OF inv this] show ?thesis .
next
  case (TimeoutFires i)
  with s inv show ?thesis by (auto simp: step_def onTimeout_invariant)
next
  case (IntervalFires i e)
  with s have "onInterval lf e m i = (obs1, m')" by (simp add: step_def)
  from onInterval_invariant [OF inv this] show ?thesis .
qed

lemma runCallbacks_invariant:
  "lockInvariant lf obs m \<Longrightarrow> runCallbacks lf m cbs = (obs1, m') \<Longrightarrow>
   lockInvariant lf (obs @ obs1) m'"
proof (induction cbs arbitrary: obs m obs1 m')
  case Nil
  then show ?case by simp
next
  case (Cons cb cbs)
  obtain o1 m1 where s: "step lf m cb = (o1, m1)" by force
  obtain o2 m2 where r: "runCallbacks lf m1 cbs = (o2, m2)" by force
  from Cons.prems(2) s r have eq: "obs1 = o1 @ o2" "m' = m2" by (simp_all add: Let_def)
  from step_invariant [OF Cons.prems(1) s] have "lockInvariant lf (obs @ o1) m1" .
  from Cons.IH [OF this r] eq show ?case by simp
qed

lemma newManager_invariant: "lockInvariant lf [] (newManager files)"
  by (simp add: lockInvariant_def newManager_def liveLocks_Nil)

lemma at_most_one_per_path:
  "distinct (map fst al) \<Longrightarrow> (\<forall>x \<in> set al. lk_path (snd x) = fst x) \<Longrightarrow>
   length (filter (\<lambda>l. lk_path l = p) (map snd al)) \<le> 1"
proof (induction al)
  case Nil
  then show ?case by simp
next
  case (Cons x al)
  show ?case
  proof (cases "fst x = p")
    case True
    with Cons.prems have "\<forall>y \<in> set al. lk_path (snd y) \<noteq> p" by (auto simp: image_iff)
    then have "filter (\<lambda>l. lk_path l = p) (map snd al) = []"
      by (auto simp: filter_empty_conv)
    then show ?thesis by simp
  next
    case False
    with Cons show ?thesis by simp
  qed
qed

text \<open>
  C3: after any sequence of callbacks (calls of \<^verbatim>\<open>acquireLock\<close> and \<^verbatim>\<open>releaseLock\<close>, with
  the queue processing they do, and timers firing, in any order), the locks handed out
  and not removed hold at most one lock for any path, and they are the locks of the
  manager's map. Every instant of a run is the end of a run of the callbacks up to it.
\<close>

theorem C3_at_most_one_live_lock_per_path:
  "size (filter_mset (\<lambda>l. lk_path l = p)
           (liveLocks (fst (runCallbacks getLockFilePath (newManager files) cbs)))) \<le> 1 \<and>
   liveLocks (fst (runCallbacks getLockFilePath (newManager files) cbs)) =
     mset (map snd (locks (snd (runCallbacks getLockFilePath (newManager files) cbs))))"
proof -
  obtain obs m where r: "runCallbacks getLockFilePath (newManager files) cbs = (obs, m)" by force
  from runCallbacks_invariant [OF newManager_invariant r]
  have inv: "lockInvariant getLockFilePath obs m" by simp
  then have live: "liveLocks obs = mset (map snd (locks m))"
    and keys: "distinct (map fst (locks m))"
    and paths: "\<forall>x \<in> set (locks m). lk_path (snd x) = fst x"
    by (auto simp: lockInvariant_def dest: distinct_keys)
  have "size (filter_mset (\<lambda>l. lk_path l = p) (liveLocks obs)) =
        length (filter (\<lambda>l. lk_path l = p) (map snd (locks m)))"
    unfolding live mset_filter [symmetric] size_mset ..
  also have "\<dots> \<le> 1" using keys paths by (rule at_most_one_per_path)
  finally show ?thesis using live by (simp add: r)
qed

lemma releaseWhileWaiting_run:
  "runCallbacks lockFileOf (newManager {}) releaseWhileWaiting =
     ([Granted \<lparr>lk_path = ''a.txt'', lockId = ''lock-1'', acquiredAt = 0, lk_callId = ''callA''\<rparr>,
       Removed \<lparr>lk_path = ''a.txt'', lockId = ''lock-1'', acquiredAt = 0, lk_callId = ''callA''\<rparr>,
       Granted \<lparr>lk_path = ''a.txt'', lockId = ''lock-3'', acquiredAt = 20, lk_callId = ''callB''\<rparr>],
      \<lparr>locks = [(''a.txt'', \<lparr>lk_path = ''a.txt'', lockId = ''lock-3'', acquiredAt = 20,
                             lk_callId = ''callB''\<rparr>)],
       queue = [''a.txt'' \<mapsto> []],
       lockFiles = {''/locks/a.txt.lock''},
       waiters = [\<lparr>w_request = requestB, timeoutId = False, checkInterval = True,
                   w_promise = Rejected ''Timeout waiting for lock on a.txt''\<rparr>]\<rparr>)"
  by (simp add: step_def acquireLock_def releaseLock_def processQueue_def
      tryAcquireLock_def onTimeout_def onInterval_def isLocked_def newManager_def
      releaseWhileWaiting_def requestA_def requestB_def envAt_def lockFileOf_def granted_def
      settle_def resolve_def reject_def Let_def)

theorem C3_at_most_one_live_lock_per_path_witness:
  "size (filter_mset (\<lambda>l. lk_path l = ''a.txt'')
           (liveLocks (fst (runCallbacks lockFileOf (newManager {}) releaseWhileWaiting)))) \<le> 1 \<and>
   liveLocks (fst (runCallbacks lockFileOf (newManager {}) releaseWhileWaiting)) =
     {#\<lparr>lk_path = ''a.txt'', lockId = ''lock-3'', acquiredAt = 20, lk_callId = ''callB''\<rparr>#}"
  using C3_at_most_one_live_lock_per_path [of "''a.txt''" lockFileOf "{}" releaseWhileWaiting]
  by (simp add: releaseWhileWaiting_run)

text \<open>
  C6 does not hold of the code. Call A holds the lock on \<^verbatim>\<open>a.txt\<close> and call B waits for
  it. When A releases, \<^verbatim>\<open>processQueue\<close> takes B's request from the queue and acquires the
  lock for B, but nothing resolves the promise of B's \<^verbatim>\<open>acquireLock\<close>: its interval timer
  finds the path locked (by the lock made for B), and when its timeout fires the promise
  is rejected. The lock made for B stays in the map.
\<close>

theorem C6_lock_granted_to_queue_head_is_not_delivered:
  "fst (runCallbacks lockFileOf (newManager {}) releaseWhileWaiting) =
     [Granted \<lparr>lk_path = ''a.txt'', lockId = ''lock-1'', acquiredAt = 0, lk_callId = ''callA''\<rparr>,
      Removed \<lparr>lk_path = ''a.txt'', lockId = ''lock-1'', acquiredAt = 0, lk_callId = ''callA''\<rparr>,
      Granted \<lparr>lk_path = ''a.txt'', lockId = ''lock-3'', acquiredAt = 20, lk_callId = ''callB''\<rparr>] \<and>
   getLockInfo (snd (runCallbacks lockFileOf (newManager {}) releaseWhileWaiting)) ''a.txt'' =
     Some \<lparr>lk_path = ''a.txt'', lockId = ''lock-3'', acquiredAt = 20, lk_callId = ''callB''\<rparr> \<and>
   map w_promise (waiters (snd (runCallbacks lockFileOf (newManager {}) releaseWhileWaiting))) =
     [Rejected ''Timeout waiting for lock on a.txt''] \<and>
   map w_request (waiters (snd (runCallbacks lockFileOf (newManager {}) releaseWhileWaiting))) =
     [requestB]"
  by (simp add: releaseWhileWaiting_run getLockInfo_def)

section \<open>GeminiClient: proofs\<close>

lemma parseConcurrentSyntax_matchAll:
  "concurrencyEnabled config \<Longrightarrow> forcedProcessingMode config \<noteq> Some Sequential \<Longrightarrow>
   parseConcurrentSyntax config request =
     \<lparr>hasConcurrentCalls = (matchAll request \<noteq> []),
      calls = map (\<lambda>(ident, p). \<lparr>call_id = ident, prompt = trim p\<rparr>) (matchAll request)\<rparr>"
  by (simp add: parseConcurrentSyntax_def Let_def)

lemmas parse_eval = matchAt_def matchMarker_def atSeparator_def startsWith_def isDigit_def isSpace_def
  trim_def Let_def

lemma fourCalls_parsed:
  "parseConcurrentSyntax defaultConcurrency fourCalls =
     \<lparr>hasConcurrentCalls = True,
      calls = [\<lparr>call_id = ''call1'', prompt = ''a''\<rparr>, \<lparr>call_id = ''call2'', prompt = ''b''\<rparr>,
               \<lparr>call_id = ''call3'', prompt = ''c''\<rparr>, \<lparr>call_id = ''call4'', prompt = ''d''\<rparr>]\<rparr>"
  by (simp add: parseConcurrentSyntax_def defaultConcurrency_def fourCalls_def parse_eval)

lemma fourCalls_merged:
  "fst (mergeStreams
          [\<lparr>call_id = ''call1'', prompt = ''a''\<rparr>, \<lparr>call_id = ''call2'', prompt = ''b''\<rparr>,
           \<lparr>call_id = ''call3'', prompt = ''c''\<rparr>, \<lparr>call_id = ''call4'', prompt = ''d''\<rparr>]
          [\<lparr>events = [Content ''a''], ending = Returns\<rparr>,
           \<lparr>events = [Content ''b''], ending = Returns\<rparr>,
           \<lparr>events = [Content ''c''], ending = Returns\<rparr>,
           \<lparr>events = [Content ''d''], ending = Returns\<rparr>]) =
     [\<lparr>event = Content ''a'', callId = Some ''call1'', callTitle = Some ''a''\<rparr>,
      \<lparr>event = Content ''b'', callId = Some ''call2'', callTitle = Some ''b''\<rparr>,
      \<lparr>event = Content ''c'', callId = Some ''call3'', callTitle = Some ''c''\<rparr>,
      \<lparr>event = Content ''d'', callId = Some ''call4'', callTitle = Some ''d''\<rparr>]"
  by (simp add: mergeStreams_def mergeLoop.simps activeGenerators_def callMetadata_def
      advance_def gen_next_def enrich_def errorEvent_def titleOf_def showCallId_def
      callIdAt_def upt_rec)

lemma fourCalls_sent:
  "sendMessageStream defaultConcurrency echoRun fourCalls notAborted ''p'' =
     Some ([\<lparr>turn_prompt_id = ''p-call1''\<rparr>, \<lparr>turn_prompt_id = ''p-call2''\<rparr>,
            \<lparr>turn_prompt_id = ''p-call3''\<rparr>, \<lparr>turn_prompt_id = ''p-call4''\<rparr>],
           [\<lparr>event = Content ''a'', callId = Some ''call1'', callTitle = Some ''a''\<rparr>,
            \<lparr>event = Content ''b'', callId = Some ''call2'', callTitle = Some ''b''\<rparr>,
            \<lparr>event = Content ''c'', callId = Some ''call3'', callTitle = Some ''c''\<rparr>,
            \<lparr>event = Content ''d'', callId = Some ''call4'', callTitle = Some ''d''\<rparr>])"
  by (simp add: sendMessageStream_def fourCalls_parsed executeConcurrentStreams_def
      buildRequestFromCall_def echoRun_def fourCalls_merged)

text \<open>
  C4, as stated, fails: with the default maximum of 3 concurrent calls, a request with
  four calls gets four turns, and no error event is yielded for the fourth call.
\<close>

theorem C4_excess_calls_counterexample:
  "maxConcurrentCalls defaultConcurrency = 3 \<and>
   length (calls (parseConcurrentSyntax defaultConcurrency fourCalls)) = 4 \<and>
   sendMessageStream defaultConcurrency echoRun fourCalls notAborted ''p'' =
     Some ([\<lparr>turn_prompt_id = ''p-call1''\<rparr>, \<lparr>turn_prompt_id = ''p-call2''\<rparr>,
            \<lparr>turn_prompt_id = ''p-call3''\<rparr>, \<lparr>turn_prompt_id = ''p-call4''\<rparr>],
           [\<lparr>event = Content ''a'', callId = Some ''call1'', callTitle = Some ''a''\<rparr>,
            \<lparr>event = Content ''b'', callId = Some ''call2'', callTitle = Some ''b''\<rparr>,
            \<lparr>event = Content ''c'', callId = Some ''call3'', callTitle = Some ''c''\<rparr>,
            \<lparr>event = Content ''d'', callId = Some ''call4'', callTitle = Some ''d''\<rparr>])"
  by (simp add: fourCalls_sent fourCalls_parsed) (simp add: defaultConcurrency_def)

text \<open>
  C4, amended: whatever the configured maximum, the orchestrator constructs one execution
  unit for every parsed call, in the order of the calls, and what it yields is a
  rearrangement of the contributions of all these units (the events of each unit, and one
  synthesized error event for each unit that throws); no call is rejected or dropped,
  and the configured maximum has no effect.
\<close>

theorem C4_one_unit_per_parsed_call:
  assumes "hasConcurrentCalls (parseConcurrentSyntax config request)"
  shows "\<exists>turns out.
           sendMessageStream config run request signal pid = Some (turns, out) \<and>
           turns = map (\<lambda>c. \<lparr>turn_prompt_id = pid @ ''-'' @ call_id c\<rparr>)
                     (calls (parseConcurrentSyntax config request)) \<and>
           mset out =
             mset (concat (expectedUnits (calls (parseConcurrentSyntax config request))
                     (map (\<lambda>c. run \<lparr>turn_prompt_id = pid @ ''-'' @ call_id c\<rparr> (prompt c) signal)
                        (calls (parseConcurrentSyntax config request))))) \<and>
           sendMessageStream (config\<lparr>maxConcurrentCalls := n\<rparr>) run request signal pid =
             Some (turns, out)"
proof -
  have "parseConcurrentSyntax (config\<lparr>maxConcurrentCalls := n\<rparr>) request =
        parseConcurrentSyntax config request"
    by (simp add: parseConcurrentSyntax_def)
  with assms show ?thesis
    by (simp add: sendMessageStream_def executeConcurrentStreams_def Let_def
        buildRequestFromCall_def mergeStreams_mset)
qed

theorem C4_one_unit_per_parsed_call_witness:
  "hasConcurrentCalls (parseConcurrentSyntax defaultConcurrency fourCalls) \<and>
   (\<exists>turns out.
      sendMessageStream defaultConcurrency echoRun fourCalls notAborted ''p'' = Some (turns, out) \<and>
      length turns = 4 \<and> length out = 4)"
proof -
  have h: "hasConcurrentCalls (parseConcurrentSyntax defaultConcurrency fourCalls)"
    by (simp add: fourCalls_parsed)
  from C4_one_unit_per_parsed_call [OF h, of echoRun notAborted "''p''" 3] h
  show ?thesis by (auto simp: fourCalls_sent)
qed

section \<open>GeminiClient: parseConcurrentSyntax, proofs\<close>

lemma isSpace_not_marker_char:
  "isSpace c \<Longrightarrow> c \<noteq> CHR ''c'' \<and> c \<notin> set ''al:'' \<and> \<not> isDigit c \<and> c \<noteq> CHR '',''"
  by (auto simp: isSpace_def isDigit_def)

lemma comma_not_marker_char:
  "CHR '','' \<notin> set ''al:'' \<and> \<not> isDigit CHR '','' \<and> \<not> isSpace CHR '','' \<and> CHR '','' \<noteq> CHR ''c''"
  by (simp add: isSpace_def isDigit_def)

lemma colon_not_digit: "\<not> isDigit CHR '':''"
  by (simp add: isDigit_def)

lemma matchMarker_render:
  assumes "d \<noteq> []" and "list_all isDigit d"
  shows "matchMarker (''call'' @ d @ '':'' @ r) = Some (''call'' @ d, r)"
proof -
  have all: "\<And>x. x \<in> set d \<Longrightarrow> isDigit x" using assms(2) by (simp add: list_all_iff)
  have t: "takeWhile isDigit (d @ CHR '':'' # r) = d"
    using all by (simp add: takeWhile_append2 colon_not_digit)
  have dr: "dropWhile isDigit (d @ CHR '':'' # r) = CHR '':'' # r"
    using all by (simp add: dropWhile_append2 colon_not_digit)
  show ?thesis using assms(1) by (simp add: matchMarker_def startsWith_def t dr)
qed

lemma matchMarker_first_char: "c \<noteq> CHR ''c'' \<Longrightarrow> matchMarker (c # s) = None"
  by (simp add: matchMarker_def startsWith_def)

lemma matchMarker_Nil: "matchMarker [] = None"
  by (simp add: matchMarker_def startsWith_def)

lemma startsWith_iff: "startsWith s p = (\<exists>v. s = p @ v)"
proof
  assume "startsWith s p"
  then have "take (length p) s = p" by (simp only: startsWith_def)
  then have "s = p @ drop (length p) s" by (metis append_take_drop_id)
  then show "\<exists>v. s = p @ v" ..
next
  assume "\<exists>v. s = p @ v"
  then show "startsWith s p" by (auto simp: startsWith_def)
qed

text \<open>A marker matches exactly the texts that start with a rendered marker.\<close>

lemma matchMarker_iff:
  "(matchMarker s = Some (i, r)) =
     (\<exists>d. d \<noteq> [] \<and> list_all isDigit d \<and> s = ''call'' @ d @ '':'' @ r \<and> i = ''call'' @ d)"
proof
  assume m: "matchMarker s = Some (i, r)"
  then have "startsWith s ''call''" by (auto simp: matchMarker_def split: if_splits)
  then obtain v where s: "s = ''call'' @ v" by (auto simp: startsWith_iff)
  then have d4: "drop 4 s = v" by simp
  from m have dw: "dropWhile isDigit v = CHR '':'' # r"
    and tk: "takeWhile isDigit v \<noteq> []" and i: "i = ''call'' @ takeWhile isDigit v"
    unfolding matchMarker_def d4 by (auto simp: Let_def split: if_splits list.splits)
  have "v = takeWhile isDigit v @ dropWhile isDigit v" by simp
  then have "s = ''call'' @ takeWhile isDigit v @ '':'' @ r" using s dw by simp
  moreover have "list_all isDigit (takeWhile isDigit v)"
    by (auto simp: list_all_iff dest: set_takeWhileD)
  ultimately show "\<exists>d. d \<noteq> [] \<and> list_all isDigit d \<and> s = ''call'' @ d @ '':'' @ r \<and> i = ''call'' @ d"
    using tk i by blast
next
  assume "\<exists>d. d \<noteq> [] \<and> list_all isDigit d \<and> s = ''call'' @ d @ '':'' @ r \<and> i = ''call'' @ d"
  then obtain d where "d \<noteq> []" "list_all isDigit d"
    and s: "s = ''call'' @ d @ '':'' @ r" and i: "i = ''call'' @ d" by blast
  from matchMarker_render [OF this(1,2), of r] show "matchMarker s = Some (i, r)"
    by (simp only: s i)
qed

lemma matchMarker_extend:
  assumes "matchMarker u = Some (i, r)"
  shows "matchMarker (u @ x) = Some (i, r @ x)"
proof -
  from assms [unfolded matchMarker_iff] obtain d where d: "d \<noteq> []" "list_all isDigit d"
    and u: "u = ''call'' @ d @ '':'' @ r" and i: "i = ''call'' @ d" by blast
  have "u @ x = ''call'' @ d @ '':'' @ (r @ x)" by (simp add: u)
  with matchMarker_render [OF d, of "r @ x"] i show ?thesis by (simp only:)
qed

lemma matchMarker_restrict:
  assumes none: "matchMarker u = None" and ne: "u \<noteq> []" and bd: "boundary x"
  shows "matchMarker (u @ x) = None"
proof (rule ccontr)
  assume "matchMarker (u @ x) \<noteq> None"
  then obtain i r' where "matchMarker (u @ x) = Some (i, r')" by auto
  from this [unfolded matchMarker_iff] obtain d where d: "d \<noteq> []" "list_all isDigit d"
    and eq0: "u @ x = ''call'' @ d @ '':'' @ r'" and i: "i = ''call'' @ d" by blast
  define mk where "mk = ''call'' @ d @ '':''"
  from eq0 have eq: "u @ x = mk @ r'" by (simp add: mk_def)
  then obtain us where us: "u = mk @ us \<and> us @ x = r' \<or> u @ us = mk \<and> x = us @ r'"
    unfolding append_eq_append_conv2 by blast
  have inside: False if "u = mk @ z" for z
  proof -
    from that have "u = ''call'' @ d @ '':'' @ z" by (simp add: mk_def)
    with matchMarker_render [OF d, of z] have "matchMarker u = Some (''call'' @ d, z)"
      by (simp only:)
    with none show False by simp
  qed
  have across: False if "u @ z = mk" "x = z @ r'" "z \<noteq> []" for z
  proof -
    from ne obtain c u' where u: "u = c # u'" by (cases u) auto
    from that(3) obtain b z' where z: "z = b # z'" by (cases z) auto
    from that(1) u z have "u' @ b # z' = ''all'' @ d @ '':''" by (simp add: mk_def)
    then have "b \<in> set (''all'' @ d @ '':'')" by (metis in_set_conv_decomp)
    then have "b \<in> set ''al:'' \<or> isDigit b" using d(2) by (auto simp: list_all_iff)
    moreover from bd that(2) z have "b \<notin> set ''al:'' \<and> \<not> isDigit b"
      by (simp add: boundary_def)
    ultimately show False by blast
  qed
  from us show False
  proof
    assume "u = mk @ us \<and> us @ x = r'"
    then show False using inside by blast
  next
    assume a: "u @ us = mk \<and> x = us @ r'"
    show False
    proof (cases "us = []")
      case True
      with a have "u = mk @ []" by simp
      then show False by (rule inside)
    next
      case False
      with a show False using across by blast
    qed
  qed
qed

lemma matchMarker_boundary:
  assumes "u \<noteq> []" and "boundary x"
  shows "(matchMarker (u @ x) \<noteq> None) = (matchMarker u \<noteq> None)"
proof (cases "matchMarker u")
  case None
  with matchMarker_restrict [OF None assms] show ?thesis by simp
next
  case (Some a)
  obtain i r where "a = (i, r)" by (cases a)
  with Some matchMarker_extend [of u i r x] show ?thesis by simp
qed

lemma sepBoundary_boundary: "sepBoundary x \<Longrightarrow> boundary x"
  by (auto simp: sepBoundary_def boundary_def isDigit_def split: list.splits)

lemma dropWhile_isSpace_sepBoundary: "sepBoundary x \<Longrightarrow> dropWhile isSpace x = x"
  by (auto simp: sepBoundary_def isSpace_def split: list.splits)

lemma matchMarker_sepBoundary: "sepBoundary x \<Longrightarrow> matchMarker x = None"
  by (auto simp: sepBoundary_def matchMarker_Nil matchMarker_first_char split: list.splits)

lemma marker_after_spaces:
  assumes "sepBoundary x"
  shows "(matchMarker (dropWhile isSpace (r @ x)) \<noteq> None) = (matchMarker (dropWhile isSpace r) \<noteq> None)"
proof (cases "dropWhile isSpace r = []")
  case True
  then have all: "\<And>y. y \<in> set r \<Longrightarrow> isSpace y" by (simp add: dropWhile_eq_Nil_conv)
  then have "dropWhile isSpace (r @ x) = dropWhile isSpace x" by (simp add: dropWhile_append2)
  with assms True show ?thesis
    by (simp only: dropWhile_isSpace_sepBoundary matchMarker_sepBoundary matchMarker_Nil)
next
  case False
  then obtain y where y: "y \<in> set r" "\<not> isSpace y" by (auto simp: dropWhile_eq_Nil_conv)
  have "dropWhile isSpace (r @ x) = dropWhile isSpace r @ x"
    using y by (rule dropWhile_append1)
  with matchMarker_boundary [OF False sepBoundary_boundary [OF assms]] show ?thesis by simp
qed

lemma atSeparator_boundary:
  assumes "t \<noteq> []" and "sepBoundary x"
  shows "atSeparator (t @ x) = atSeparator t"
proof -
  from assms(1) obtain c r where t: "t = c # r" by (cases t) auto
  have "atSeparator (c # r @ x) =
        (c = CHR '','' \<and> matchMarker (dropWhile isSpace (r @ x)) \<noteq> None)"
    by (simp add: atSeparator_def)
  also have "\<dots> = (c = CHR '','' \<and> matchMarker (dropWhile isSpace r) \<noteq> None)"
    by (simp only: marker_after_spaces [OF assms(2)])
  also have "\<dots> = atSeparator (c # r)" by (simp add: atSeparator_def)
  finally show ?thesis by (simp add: t)
qed

lemma atSeparator_sepBoundary: "atSeparator x \<Longrightarrow> sepBoundary x"
  by (auto simp: atSeparator_def sepBoundary_def split: list.splits)

lemma promptText_at_end: "x = [] \<or> atSeparator x \<Longrightarrow> promptText x = ([], x)"
  by (cases x) (auto simp: atSeparator_def)

lemma promptText_body:
  assumes "noSeparatorIn b" and "x = [] \<or> atSeparator x"
  shows "promptText (b @ x) = (b, x)"
  using assms(1)
proof (induction b)
  case Nil
  from assms(2) show ?case by (simp add: promptText_at_end)
next
  case (Cons c b)
  from assms(2) have sb: "sepBoundary x"
    by (auto simp: sepBoundary_def dest: atSeparator_sepBoundary)
  from Cons.prems have "\<not> atSeparator (c # b)" and nb: "noSeparatorIn b" by simp_all
  with atSeparator_boundary [of "c # b" x] sb have "\<not> atSeparator (c # b @ x)" by simp
  then have "\<not> (c = CHR '','' \<and> matchMarker (dropWhile isSpace (b @ x)) \<noteq> None)"
    by (simp add: atSeparator_def)
  with Cons.IH [OF nb] show ?case by auto
qed

lemma noSeparatorIn_dropWhile: "noSeparatorIn b \<Longrightarrow> noSeparatorIn (dropWhile P b)"
  by (induction b) auto

lemma matchAt_render:
  assumes d: "d \<noteq> []" "list_all isDigit d" and b: "noSeparatorIn b"
    and x: "x = [] \<or> atSeparator x"
  shows "matchAt (''call'' @ d @ '':'' @ b @ x) = Some (''call'' @ d, dropWhile isSpace b, x)"
proof -
  from x have sb: "sepBoundary x"
    by (auto simp: sepBoundary_def dest: atSeparator_sepBoundary)
  have mm: "matchMarker (''call'' @ d @ '':'' @ b @ x) = Some (''call'' @ d, b @ x)"
    using d by (rule matchMarker_render)
  have "promptText (dropWhile isSpace (b @ x)) = (dropWhile isSpace b, x)"
  proof (cases "dropWhile isSpace b = []")
    case True
    then have "\<And>y. y \<in> set b \<Longrightarrow> isSpace y" by (simp add: dropWhile_eq_Nil_conv)
    then have "dropWhile isSpace (b @ x) = dropWhile isSpace x" by (simp add: dropWhile_append2)
    with True sb x show ?thesis
      by (simp only: dropWhile_isSpace_sepBoundary promptText_at_end)
  next
    case False
    then obtain y where y: "y \<in> set b" "\<not> isSpace y" by (auto simp: dropWhile_eq_Nil_conv)
    have "dropWhile isSpace (b @ x) = dropWhile isSpace b @ x"
      using y by (rule dropWhile_append1)
    with promptText_body [OF noSeparatorIn_dropWhile [OF b] x, of isSpace] show ?thesis by simp
  qed
  with mm x show ?thesis by (auto simp: matchAt_def)
qed

lemma matchAt_first_char: "c \<noteq> CHR ''c'' \<Longrightarrow> matchAt (c # s) = None"
  by (simp add: matchAt_def matchMarker_first_char)

lemma matchAll_skip: "(\<And>c. c \<in> set w \<Longrightarrow> c \<noteq> CHR ''c'') \<Longrightarrow> matchAll (w @ s) = matchAll s"
  by (induction w) (simp_all add: matchAt_first_char)

lemma matchAll_skip_spaces: "list_all isSpace w \<Longrightarrow> matchAll (w @ s) = matchAll s"
  by (rule matchAll_skip) (auto simp: list_all_iff dest: isSpace_not_marker_char)

lemma matchAll_no_marker:
  "noMarkerIn pre \<Longrightarrow> boundary s \<Longrightarrow> matchAll (pre @ s) = matchAll s"
proof (induction pre)
  case Nil
  show ?case by simp
next
  case (Cons c pre)
  from Cons.prems have "matchMarker (c # pre) = None" and np: "noMarkerIn pre" by simp_all
  from matchMarker_restrict [OF this(1) _ Cons.prems(2)]
  have "matchMarker (c # pre @ s) = None" by simp
  then have "matchAt (c # pre @ s) = None" by (simp add: matchAt_def)
  with Cons.IH [OF np Cons.prems(2)] show ?case by simp
qed

lemma renderCall_separator:
  assumes "validSegment seg"
  shows "atSeparator ('','' @ renderCall seg @ s)"
proof -
  obtain w d b where seg: "seg = (w, d, b)" by (cases seg)
  with assms have w: "\<And>y. y \<in> set w \<Longrightarrow> isSpace y" and d: "d \<noteq> []" "list_all isDigit d"
    by (auto simp: validSegment_def list_all_iff)
  have "dropWhile isSpace (w @ ''call'' @ d @ '':'' @ b @ s) = ''call'' @ d @ '':'' @ b @ s"
    using w by (simp add: dropWhile_append2 isSpace_def)
  with matchMarker_render [OF d, of "b @ s"] show ?thesis
    by (simp add: atSeparator_def renderCall_def seg)
qed

lemma renderCalls_Cons:
  "renderCalls (seg # segs) = renderCall seg @ (if segs = [] then [] else '','' @ renderCalls segs)"
  by (cases segs) simp_all

lemma renderCalls_separator:
  assumes "list_all validSegment segs" and "segs \<noteq> []"
  shows "atSeparator ('','' @ renderCalls segs)"
proof -
  from assms obtain seg rest where segs: "segs = seg # rest" by (cases segs) auto
  with assms(1) have "validSegment seg" by simp
  from renderCall_separator [OF this] show ?thesis
    by (simp add: segs renderCalls_Cons)
qed

lemma matchAll_renderCalls:
  "list_all validSegment segs \<Longrightarrow>
   matchAll (renderCalls segs) =
     map (\<lambda>seg. case seg of (w, d, b) \<Rightarrow> (''call'' @ d, dropWhile isSpace b)) segs"
proof (induction segs)
  case Nil
  show ?case by simp
next
  case (Cons seg segs)
  obtain w d b where seg: "seg = (w, d, b)" by (cases seg)
  from Cons.prems have "validSegment seg" and rest: "list_all validSegment segs"
    by simp_all
  with seg have w: "list_all isSpace w" and d: "d \<noteq> []" "list_all isDigit d"
    and b: "noSeparatorIn b"
    by (simp_all add: validSegment_def)
  let ?x = "if segs = [] then [] else '','' @ renderCalls segs"
  have x: "?x = [] \<or> atSeparator ?x"
    using renderCalls_separator [OF rest] by simp
  have rendered: "renderCalls (seg # segs) = w @ ''call'' @ d @ '':'' @ b @ ?x"
    by (simp add: renderCalls_Cons renderCall_def seg)
  have "matchAll (renderCalls (seg # segs)) = matchAll (''call'' @ d @ '':'' @ b @ ?x)"
    unfolding rendered using w by (rule matchAll_skip_spaces)
  also have "\<dots> = (''call'' @ d, dropWhile isSpace b) # matchAll ?x"
    using matchAt_render [OF d b x] by simp
  also have "matchAll ?x = matchAll (renderCalls segs)"
  proof (cases "segs = []")
    case True
    then show ?thesis by simp
  next
    case False
    then show ?thesis by (simp add: matchAt_first_char)
  qed
  finally show ?case using Cons.IH [OF rest] by (simp add: seg)
qed

lemma trim_dropWhile: "trim (dropWhile isSpace b) = trim b"
  by (simp add: trim_def)

lemma renderCalls_boundary: "list_all validSegment segs \<Longrightarrow> boundary (renderCalls segs)"
proof (cases segs)
  case Nil
  then show ?thesis by (simp add: boundary_def)
next
  case segs: (Cons seg rest)
  assume "list_all validSegment segs"
  with segs have v: "validSegment seg" by simp
  obtain w d b where seg: "seg = (w, d, b)" by (cases seg)
  with v have w: "list_all isSpace w" by (simp add: validSegment_def)
  show ?thesis
  proof (cases w)
    case Nil
    then show ?thesis
      by (simp add: segs renderCalls_Cons renderCall_def seg boundary_def isDigit_def)
  next
    case (Cons c w')
    with w have "isSpace c" by simp
    from isSpace_not_marker_char [OF this] show ?thesis
      by (simp add: segs renderCalls_Cons renderCall_def seg Cons boundary_def)
  qed
qed

text \<open>
  C2, as stated, fails: the text \<^verbatim>\<open>call1: a call2: b\<close> contains two well-formed markers,
  and the parser returns one call, whose prompt runs over the second marker. A marker
  starts a new call only after a comma.
\<close>

theorem C2_two_markers_one_call_counterexample:
  "countMarkers ''call1: a call2: b'' = 2 \<and>
   parseConcurrentSyntax defaultConcurrency ''call1: a call2: b'' =
     \<lparr>hasConcurrentCalls = True,
      calls = [\<lparr>call_id = ''call1'', prompt = ''a call2: b''\<rparr>]\<rparr>"
  by (simp add: parseConcurrentSyntax_def defaultConcurrency_def parse_eval)

text \<open>
  C2, amended: let concurrency be enabled and the mode not forced to sequential. For a
  text that consists of a prefix in which no marker stands, followed by \<open>k\<close> calls joined
  by commas, each written as optional white space, a marker (\<^verbatim>\<open>call\<close>, digits, a colon)
  and a text in which no comma is followed by optional white space and a marker, the
  parser returns \<open>hasConcurrentCalls = true\<close> exactly when \<open>k > 0\<close>, and exactly \<open>k\<close>
  calls in the order of the markers, the id of each being its marker without the colon
  and the prompt its text, trimmed, with its commas. For \<open>k = 0\<close> the text has no marker
  and the result is \<open>hasConcurrentCalls = false\<close> with an empty list.
\<close>

theorem C2_parse_well_separated_calls:
  assumes "concurrencyEnabled config" and "forcedProcessingMode config \<noteq> Some Sequential"
    and "noMarkerIn pre" and "list_all validSegment segs"
  shows "parseConcurrentSyntax config (pre @ renderCalls segs) =
           \<lparr>hasConcurrentCalls = (segs \<noteq> []), calls = map callOf segs\<rparr>"
proof -
  have "matchAll (pre @ renderCalls segs) = matchAll (renderCalls segs)"
    using assms(3) renderCalls_boundary [OF assms(4)] by (rule matchAll_no_marker)
  also have "\<dots> = map (\<lambda>seg. case seg of (w, d, b) \<Rightarrow> (''call'' @ d, dropWhile isSpace b)) segs"
    using assms(4) by (rule matchAll_renderCalls)
  finally have m: "matchAll (pre @ renderCalls segs) =
      map (\<lambda>seg. case seg of (w, d, b) \<Rightarrow> (''call'' @ d, dropWhile isSpace b)) segs" .
  have "map (\<lambda>(ident, p). \<lparr>call_id = ident, prompt = trim p\<rparr>)
          (map (\<lambda>seg. case seg of (w, d, b) \<Rightarrow> (''call'' @ d, dropWhile isSpace b)) segs) =
        map callOf segs"
    by (simp add: callOf_def case_prod_beta trim_dropWhile)
  with assms(1,2) m show ?thesis
    by (simp add: parseConcurrentSyntax_matchAll)
qed

theorem C2_parse_well_separated_calls_witness:
  "concurrencyEnabled defaultConcurrency \<and>
   forcedProcessingMode defaultConcurrency \<noteq> Some Sequential \<and>
   noMarkerIn ''Please run '' \<and>
   list_all validSegment [([], ''1'', '' a, b, c''), ('' '', ''2'', '' d'')] \<and>
   parseConcurrentSyntax defaultConcurrency ''Please run call1: a, b, c, call2: d'' =
     \<lparr>hasConcurrentCalls = True,
      calls = [\<lparr>call_id = ''call1'', prompt = ''a, b, c''\<rparr>,
               \<lparr>call_id = ''call2'', prompt = ''d''\<rparr>]\<rparr>"
proof -
  have e: "concurrencyEnabled defaultConcurrency"
    and f: "forcedProcessingMode defaultConcurrency \<noteq> Some Sequential"
    by (simp_all add: defaultConcurrency_def)
  have n: "noMarkerIn ''Please run ''"
    by (simp add: matchMarker_def startsWith_def)
  have v: "list_all validSegment [([], ''1'', '' a, b, c''), ('' '', ''2'', '' d'')]"
    by (simp add: validSegment_def isSpace_def isDigit_def atSeparator_def matchMarker_def
        startsWith_def)
  from C2_parse_well_separated_calls [OF e f n v] e f n v show ?thesis
    by (simp add: renderCall_def callOf_def trim_def isSpace_def)
qed

end
